theory Spec2Isabelle
  imports Main
begin

section \<open>Python string primitives used by triage.py\<close>

text \<open>
  Paths and report texts are Python byte strings, modelled as \<open>string\<close>.
  \<open>str.find\<close> and \<open>str.rfind\<close> return \<open>-1\<close> when the needle is absent, and the
  slices \<open>s[i:]\<close> and \<open>s[:j]\<close> count a negative bound from the end and clamp it to the
  string, so the model keeps indices as \<open>int\<close>.
\<close>

fun startswith :: "string \<Rightarrow> string \<Rightarrow> bool" where
  "startswith s [] = True"
| "startswith [] (c # sub) = False"
| "startswith (x # s) (c # sub) = (if x = c then startswith s sub else False)"

definition endswith :: "string \<Rightarrow> string \<Rightarrow> bool" where
  "endswith s sub = (length sub \<le> length s \<and> drop (length s - length sub) s = sub)"

fun find_from :: "int \<Rightarrow> string \<Rightarrow> string \<Rightarrow> int" where
  "find_from i [] sub = (if sub = [] then i else -1)"
| "find_from i (c # cs) sub =
     (if startswith (c # cs) sub then i else find_from (i + 1) cs sub)"

definition str_find :: "string \<Rightarrow> string \<Rightarrow> int" where
  "str_find s sub = find_from 0 s sub"

fun rfind_from :: "int \<Rightarrow> string \<Rightarrow> string \<Rightarrow> int" where
  "rfind_from i [] sub = (if sub = [] then i else -1)"
| "rfind_from i (c # cs) sub =
     (let r = rfind_from (i + 1) cs sub
      in if 0 \<le> r then r else if startswith (c # cs) sub then i else -1)"

definition str_rfind :: "string \<Rightarrow> string \<Rightarrow> int" where
  "str_rfind s sub = rfind_from 0 s sub"

definition norm_index :: "string \<Rightarrow> int \<Rightarrow> nat" where
  "norm_index s i = (if i < 0 then nat (int (length s) + i) else nat i)"

definition slice_from :: "string \<Rightarrow> int \<Rightarrow> string" where
  "slice_from s i = drop (norm_index s i) s"

definition slice_to :: "string \<Rightarrow> int \<Rightarrow> string" where
  "slice_to s j = take (norm_index s j) s"

definition contains :: "string \<Rightarrow> string \<Rightarrow> bool" where
  "contains s sub = (0 \<le> str_find s sub)"

text \<open>
  \<open>str(dup)\<close> for the positive counters the program renders: decimal digits, most
  significant first.
\<close>

definition digit_char :: "nat \<Rightarrow> char" where
  "digit_char d = ''0123456789'' ! d"

fun str_nat :: "nat \<Rightarrow> string" where
  "str_nat n = (if n < 10 then [digit_char n] else str_nat (n div 10) @ [digit_char (n mod 10)])"

declare str_nat.simps [simp del]

section \<open>The file system\<close>

text \<open>
  The program sees the disk only through \<open>os\<close> and \<open>shutil\<close> calls on path strings
  that it builds by concatenation with \<open>os.sep\<close>. The model is therefore flat: an
  association list from path strings (relative to the working directory, exactly as the
  program spells them) to entries, in directory listing order. A regular file carries
  its text. A call that raises in Python returns \<open>Inl\<close> of the exception.
\<close>

datatype entry = File string | Dir

type_synonym filesystem = "(string \<times> entry) list"

datatype exn = OSError | IOError | IndexError | RuntimeError | KeyboardInterrupt

definition sep_char :: char where
  "sep_char = CHR ''/''"

definition os_sep :: string where
  "os_sep = [sep_char]"

definition path_exists :: "filesystem \<Rightarrow> string \<Rightarrow> bool" where
  "path_exists fs p = (map_of fs p \<noteq> None)"

definition path_isdir :: "filesystem \<Rightarrow> string \<Rightarrow> bool" where
  "path_isdir fs p = (map_of fs p = Some Dir)"

text \<open>\<open>p[p.rfind(os.sep) + 1:]\<close>, the idiom the program uses for a basename.\<close>

definition basename :: "string \<Rightarrow> string" where
  "basename p = slice_from p (str_rfind p os_sep + 1)"

text \<open>
  The directory a new entry \<open>p\<close> is created in must exist; a path without separator
  lies in the working directory, which always does.
\<close>

definition parent_ok :: "filesystem \<Rightarrow> string \<Rightarrow> bool" where
  "parent_ok fs p =
     (let i = str_rfind p os_sep in if i < 0 then True else path_isdir fs (slice_to p i))"

definition is_child :: "string \<Rightarrow> string \<Rightarrow> bool" where
  "is_child d k =
     (startswith k (d @ os_sep) \<and> drop (length d + 1) k \<noteq> []
      \<and> sep_char \<notin> set (drop (length d + 1) k))"

definition os_listdir :: "filesystem \<Rightarrow> string \<Rightarrow> exn + string list" where
  "os_listdir fs d =
     (if path_isdir fs d
      then Inr (map (\<lambda>k. drop (length d + 1) k) (filter (is_child d) (map fst fs)))
      else Inl OSError)"

definition delete_path :: "filesystem \<Rightarrow> string \<Rightarrow> filesystem" where
  "delete_path fs p = filter (\<lambda>ke. fst ke \<noteq> p) fs"

definition os_mkdir :: "filesystem \<Rightarrow> string \<Rightarrow> exn + filesystem" where
  "os_mkdir fs p =
     (if path_exists fs p \<or> \<not> parent_ok fs p then Inl OSError else Inr (fs @ [(p, Dir)]))"

definition os_rmdir :: "filesystem \<Rightarrow> string \<Rightarrow> exn + filesystem" where
  "os_rmdir fs p =
     (if os_listdir fs p = Inr [] then Inr (delete_path fs p) else Inl OSError)"

definition os_remove :: "filesystem \<Rightarrow> string \<Rightarrow> exn + filesystem" where
  "os_remove fs p =
     (case map_of fs p of Some (File c) \<Rightarrow> Inr (delete_path fs p) | _ \<Rightarrow> Inl OSError)"

text \<open>\<open>open(p, "r").read()\<close>\<close>

definition read_file :: "filesystem \<Rightarrow> string \<Rightarrow> exn + string" where
  "read_file fs p = (case map_of fs p of Some (File c) \<Rightarrow> Inr c | _ \<Rightarrow> Inl IOError)"

text \<open>Writing a regular file: in place when the path is there, a new entry otherwise.\<close>

definition write_file :: "filesystem \<Rightarrow> string \<Rightarrow> string \<Rightarrow> filesystem" where
  "write_file fs p c =
     (if path_exists fs p then map (\<lambda>ke. if fst ke = p then (p, File c) else ke) fs
      else fs @ [(p, File c)])"

text \<open>
  \<open>shutil.copy(src, dst)\<close> copies a regular file; into \<open>dst\<close> when that is a directory.
\<close>

definition shutil_copy :: "filesystem \<Rightarrow> string \<Rightarrow> string \<Rightarrow> exn + filesystem" where
  "shutil_copy fs src dst =
     (case map_of fs src of
        Some (File c) \<Rightarrow>
          (let real_dst = (if path_isdir fs dst then dst @ os_sep @ basename src else dst)
           in if path_isdir fs real_dst \<or> \<not> parent_ok fs real_dst then Inl IOError
              else Inr (write_file fs real_dst c))
      | _ \<Rightarrow> Inl IOError)"

text \<open>
  \<open>shutil.move(src, dst)\<close> for a regular file \<open>src\<close>, the only kind the program passes
  (MoveFile recurses on directories itself, and the driver moves the report file). Into
  an existing directory \<open>dst\<close> it moves to \<open>dst/basename(src)\<close> and refuses when that
  exists; otherwise it renames, replacing a regular file at the destination.
\<close>

definition shutil_move :: "filesystem \<Rightarrow> string \<Rightarrow> string \<Rightarrow> exn + filesystem" where
  "shutil_move fs src dst =
     (case map_of fs src of
        Some (File c) \<Rightarrow>
          (let real_dst = (if path_isdir fs dst then dst @ os_sep @ basename src else dst)
           in if path_isdir fs dst \<and> path_exists fs real_dst then Inl OSError
              else if path_isdir fs real_dst \<or> \<not> parent_ok fs real_dst then Inl IOError
              else if real_dst = src then Inr fs
              else Inr (write_file (delete_path fs src) real_dst c))
      | _ \<Rightarrow> Inl IOError)"

lemma digit_char_inj: "a < 10 \<Longrightarrow> b < 10 \<Longrightarrow> digit_char a = digit_char b \<Longrightarrow> a = b"
proof -
  assume a: "a < 10" and b: "b < 10" and e: "digit_char a = digit_char b"
  have d: "distinct ''0123456789''" by simp
  have "a < length ''0123456789''" "b < length ''0123456789''" using a b by simp_all
  with d e show "a = b" unfolding digit_char_def by (simp only: nth_eq_iff_index_eq)
qed

lemma str_nat_nonempty: "str_nat n \<noteq> []"
  by (subst str_nat.simps) simp

lemma str_nat_inj: "str_nat a = str_nat b \<Longrightarrow> a = b"
proof (induction a arbitrary: b rule: str_nat.induct)
  case (1 n)
  show ?case
  proof (cases "n < 10")
    case True
    then have n: "str_nat n = [digit_char n]" by (subst str_nat.simps) simp
    show ?thesis
    proof (cases "b < 10")
      case bt: True
      then have "str_nat b = [digit_char b]" by (subst str_nat.simps) simp
      with n "1.prems" True bt show ?thesis by (auto dest: digit_char_inj)
    next
      case bf: False
      then have "str_nat b = str_nat (b div 10) @ [digit_char (b mod 10)]"
        by (subst str_nat.simps) simp
      with n "1.prems" have "str_nat (b div 10) = []" by simp
      then show ?thesis by (simp add: str_nat_nonempty)
    qed
  next
    case False
    then have n: "str_nat n = str_nat (n div 10) @ [digit_char (n mod 10)]"
      by (subst str_nat.simps) simp
    show ?thesis
    proof (cases "b < 10")
      case bt: True
      then have "str_nat b = [digit_char b]" by (subst str_nat.simps) simp
      with n "1.prems" have "str_nat (n div 10) = []" by simp
      then show ?thesis by (simp add: str_nat_nonempty)
    next
      case bf: False
      then have "str_nat b = str_nat (b div 10) @ [digit_char (b mod 10)]"
        by (subst str_nat.simps) simp
      with n "1.prems" have q: "str_nat (n div 10) = str_nat (b div 10)"
        and r: "digit_char (n mod 10) = digit_char (b mod 10)" by auto
      from "1.IH"[OF False q] have "n div 10 = b div 10" .
      moreover from r have "n mod 10 = b mod 10"
        by (rule digit_char_inj[rotated 2]) simp_all
      ultimately show ?thesis by (metis div_mult_mod_eq)
    qed
  qed
qed

section \<open>The placement engine: MoveFile and CleanupFiles\<close>

text \<open>
  The collision rename of MoveFile:
  \<^verbatim>\<open>
  dup = 1
  while os.path.exists(destination[:destination.rfind(".")] + "_(" + str(dup) + ")"
                       + destination[destination.rfind("."):]):
      dup += 1
  destination = destination[:destination.rfind(".")] + "_(" + str(dup) + ")"
                + destination[destination.rfind("."):]
  \<close>
  \<open>dup_name\<close> is the candidate name for one counter, \<open>find_dup\<close> the loop. The
  loop stops because the candidates of different counters differ and the file system
  holds finitely many paths.
\<close>

definition dup_name :: "string \<Rightarrow> nat \<Rightarrow> string" where
  "dup_name destination dup =
     slice_to destination (str_rfind destination ''.'') @ ''_('' @ str_nat dup @ '')''
       @ slice_from destination (str_rfind destination ''.'')"

lemma dup_name_inj: "dup_name d a = dup_name d b \<Longrightarrow> a = b"
  by (simp add: dup_name_def str_nat_inj)

function find_dup :: "filesystem \<Rightarrow> string \<Rightarrow> nat \<Rightarrow> nat" where
  "find_dup fs destination dup =
     (if path_exists fs (dup_name destination dup) then find_dup fs destination (dup + 1)
      else dup)"
  by pat_completeness auto
termination
proof (relation "measure (\<lambda>(fs, destination, dup).
         card {k \<in> fst ` set fs. \<exists>j \<ge> dup. k = dup_name destination j})")
  show "wf (measure (\<lambda>(fs, destination, dup).
         card {k \<in> fst ` set fs. \<exists>j \<ge> dup. k = dup_name destination j}))" by simp
next
  fix fs :: filesystem and destination :: string and dup :: nat
  assume ex: "path_exists fs (dup_name destination dup)"
  let ?A = "\<lambda>d. {k \<in> fst ` set fs. \<exists>j \<ge> d. k = dup_name destination j}"
  have mem: "dup_name destination dup \<in> fst ` set fs"
    using ex by (auto simp: path_exists_def dest: map_of_SomeD intro: rev_image_eqI)
  have "dup_name destination dup \<in> ?A dup" using mem by auto
  moreover have "dup_name destination dup \<notin> ?A (dup + 1)"
    by (auto dest: dup_name_inj)
  moreover have "?A (dup + 1) \<subseteq> ?A dup" by (auto intro: Suc_leD)
  ultimately have "?A (dup + 1) \<subset> ?A dup" by blast
  moreover have "finite (?A dup)" by simp
  ultimately have "card (?A (dup + 1)) < card (?A dup)" by (rule psubset_card_mono[rotated])
  then show "((fs, destination, dup + 1), (fs, destination, dup))
      \<in> measure (\<lambda>(fs, destination, dup).
         card {k \<in> fst ` set fs. \<exists>j \<ge> dup. k = dup_name destination j})" by simp
qed


declare find_dup.simps [simp del]

text \<open>
  MoveFile on a source that is not a directory (the part after the first branch):
  \<open>resolve_destination\<close> is the destination after the \<open>elif\<close> and the collision
  rename, \<open>move_file\<close> the retry loop around \<open>shutil.move\<close>. The retry loop \<open>while os.path.exists(source): try: shutil.move(...) except: sleep(3)\<close>
  leaves the file system as it was when the move raises, so the next attempt raises
  again: the call does not return, which is the value \<open>None\<close>.
\<close>

definition resolve_destination :: "filesystem \<Rightarrow> string \<Rightarrow> string \<Rightarrow> string" where
  "resolve_destination fs source destination =
     (let destination1 = (if path_isdir fs destination
                          then destination @ os_sep @ basename source else destination)
      in if path_exists fs destination1
         then dup_name destination1 (find_dup fs destination1 1) else destination1)"

definition move_file :: "filesystem \<Rightarrow> string \<Rightarrow> string \<Rightarrow> (exn + filesystem) option" where
  "move_file fs source destination =
     (let destination2 = resolve_destination fs source destination
      in if path_exists fs source
         then (case shutil_move fs source destination2 of
                 Inl e \<Rightarrow> None
               | Inr fs' \<Rightarrow> if path_exists fs' source then None else Some (Inr fs'))
         else Some (Inr fs))"

text \<open>
  The loop \<open>for file in os.listdir(source): MoveFile(source + os.sep + file,
  destination + os.sep + file)\<close> over a listing taken before the loop; \<open>rec\<close> is the
  recursive call.
\<close>

fun move_children ::
  "(filesystem \<Rightarrow> string \<Rightarrow> string \<Rightarrow> (exn + filesystem) option) \<Rightarrow>
   filesystem \<Rightarrow> string \<Rightarrow> string \<Rightarrow> string list \<Rightarrow> (exn + filesystem) option" where
  "move_children rec fs source destination [] = Some (Inr fs)"
| "move_children rec fs source destination (file # files) =
     (case rec fs (source @ os_sep @ file) (destination @ os_sep @ file) of
        None \<Rightarrow> None
      | Some (Inl e) \<Rightarrow> Some (Inl e)
      | Some (Inr fs') \<Rightarrow> move_children rec fs' source destination files)"

text \<open>
  MoveFile. The first argument bounds the depth of the recursion over directories;
  \<open>None\<close> is a call that does not return.
\<close>

primrec MoveFile :: "nat \<Rightarrow> filesystem \<Rightarrow> string \<Rightarrow> string \<Rightarrow> (exn + filesystem) option" where
  "MoveFile 0 fs source destination = None"
| "MoveFile (Suc n) fs source destination =
     (if path_isdir fs source
      then (case (if \<not> path_exists fs destination then os_mkdir fs destination else Inr fs) of
              Inl e \<Rightarrow> Some (Inl e)
            | Inr fs1 \<Rightarrow>
                (case os_listdir fs1 source of
                   Inl e \<Rightarrow> Some (Inl e)
                 | Inr files \<Rightarrow> move_children (MoveFile n) fs1 source destination files))
      else move_file fs source destination)"

text \<open>CleanupFiles, with its loop over the listing taken at entry.\<close>

fun cleanup_children ::
  "(filesystem \<Rightarrow> string \<Rightarrow> (exn + filesystem) option) \<Rightarrow>
   filesystem \<Rightarrow> string \<Rightarrow> string list \<Rightarrow> (exn + filesystem) option" where
  "cleanup_children rec fs path [] = Some (Inr fs)"
| "cleanup_children rec fs path (file # files) =
     (if path_isdir fs (path @ os_sep @ file)
      then (case rec fs (path @ os_sep @ file) of
              None \<Rightarrow> None
            | Some (Inl e) \<Rightarrow> Some (Inl e)
            | Some (Inr fs') \<Rightarrow> cleanup_children rec fs' path files)
      else cleanup_children rec fs path files)"

primrec CleanupFiles :: "nat \<Rightarrow> filesystem \<Rightarrow> string \<Rightarrow> (exn + filesystem) option" where
  "CleanupFiles 0 fs path = None"
| "CleanupFiles (Suc n) fs path =
     (case os_listdir fs path of
        Inl e \<Rightarrow> Some (Inl e)
      | Inr files \<Rightarrow>
          if length files = 0
          then (case os_rmdir fs path of Inl e \<Rightarrow> Some (Inl e) | Inr fs' \<Rightarrow> Some (Inr fs'))
          else cleanup_children (CleanupFiles n) fs path files)"

section \<open>The crash registry: FindHashGroupPath\<close>

text \<open>
  The first loop tests \<open>os.path.isdir(file)\<close> on the bare directory entry, that is on
  a path relative to the working directory, and either returns \<open>baseDir/hash\<close> (here
  \<open>Inl\<close>) or collects the names to descend into (\<open>Inr\<close>).
\<close>

fun first_loop :: "filesystem \<Rightarrow> string \<Rightarrow> string \<Rightarrow> string list \<Rightarrow> string list \<Rightarrow> string + string list" where
  "first_loop fs hash baseDir [] dirs = Inr dirs"
| "first_loop fs hash baseDir (file # files) dirs =
     (if path_isdir fs file
      then (if file = hash then Inl (baseDir @ os_sep @ hash)
            else first_loop fs hash baseDir files (dirs @ [file]))
      else first_loop fs hash baseDir files dirs)"

fun second_loop ::
  "(string \<Rightarrow> (exn + string option) option) \<Rightarrow> string \<Rightarrow> string list \<Rightarrow>
   (exn + string option) option" where
  "second_loop rec baseDir [] = Some (Inr None)"
| "second_loop rec baseDir (dir # dirs) =
     (case rec (baseDir @ os_sep @ dir) of
        None \<Rightarrow> None
      | Some (Inl e) \<Rightarrow> Some (Inl e)
      | Some (Inr (Some returnValue)) \<Rightarrow> Some (Inr (Some returnValue))
      | Some (Inr None) \<Rightarrow> second_loop rec baseDir dirs)"

primrec FindHashGroupPath :: "nat \<Rightarrow> filesystem \<Rightarrow> string \<Rightarrow> string \<Rightarrow> (exn + string option) option" where
  "FindHashGroupPath 0 fs hash baseDir = None"
| "FindHashGroupPath (Suc n) fs hash baseDir =
     (case os_listdir fs baseDir of
        Inl e \<Rightarrow> Some (Inl e)
      | Inr files \<Rightarrow>
          (case first_loop fs hash baseDir files [] of
             Inl found \<Rightarrow> Some (Inr (Some found))
           | Inr dirs \<Rightarrow> second_loop (FindHashGroupPath n fs hash) baseDir dirs))"

section \<open>Severity merge: the scanning loop of SortHashDir\<close>

text \<open>
  \<^verbatim>\<open>
  best = exploitability[0]
  for exp in exploitability:
      if best == "EXPLOITABLE": break
      if exp == "EXPLOITABLE": best = exp
      elif exp == "PROBABLY EXPLOITABLE": best = exp
      elif exp == "UNKNOWN" and best != "PROBABLY EXPLOITABLE": best = exp
      elif exp == "PROBABLY NOT EXPLOITABLE" and best != "PROBABLY EXPLOITABLE"
           and best != "UNKNOWN": best = exp
  \<close>
  \<open>merge_loop best exps\<close> is the \<open>for\<close> loop run from the state \<open>best\<close>;
  \<open>merge_severity\<close> adds the initialisation, which raises IndexError on an empty list.
\<close>

fun merge_loop :: "string \<Rightarrow> string list \<Rightarrow> string" where
  "merge_loop best [] = best"
| "merge_loop best (exp # exps) =
     (if best = ''EXPLOITABLE'' then best
      else if exp = ''EXPLOITABLE'' then merge_loop exp exps
      else if exp = ''PROBABLY EXPLOITABLE'' then merge_loop exp exps
      else if exp = ''UNKNOWN'' \<and> best \<noteq> ''PROBABLY EXPLOITABLE'' then merge_loop exp exps
      else if exp = ''PROBABLY NOT EXPLOITABLE'' \<and> best \<noteq> ''PROBABLY EXPLOITABLE''
              \<and> best \<noteq> ''UNKNOWN'' then merge_loop exp exps
      else merge_loop best exps)"

definition merge_severity :: "string list \<Rightarrow> string option" where
  "merge_severity exps = (case exps of [] \<Rightarrow> None | e # _ \<Rightarrow> Some (merge_loop e exps))"

text \<open>The total order of the severity labels, as a rank.\<close>

definition labels :: "string set" where
  "labels = {''EXPLOITABLE'', ''PROBABLY EXPLOITABLE'', ''UNKNOWN'', ''PROBABLY NOT EXPLOITABLE''}"

definition rank :: "string \<Rightarrow> nat" where
  "rank l = (if l = ''EXPLOITABLE'' then 3
             else if l = ''PROBABLY EXPLOITABLE'' then 2
             else if l = ''UNKNOWN'' then 1 else 0)"


section \<open>The group classifier: SortHashDir\<close>

text \<open>The globals of the script that the modelled functions read.\<close>

record config =
  outputDir :: string
  TestDir :: string
  logoutput :: string
  max_time :: nat

text \<open>The values the script gives these globals at start-up.\<close>

definition default_config :: config where
  "default_config = \<lparr>outputDir = ''Crashes'', TestDir = ''Tests'',
                      logoutput = ''crash_details.txt'', max_time = 20\<rparr>"

definition rule_line :: string where
  "rule_line = replicate 80 (CHR ''*'')"

definition newline :: string where
  "newline = [CHR 0x0A]"

text \<open>
  The slicing of one report text in the loop body of SortHashDir: the severity label
  (\<open>bang_rank\<close>) and the string \<open>registers\<close> that is handed to \<open>hashlib.md5\<close>.
\<close>

definition parse_report :: "string \<Rightarrow> string \<times> string" where
  "parse_report data =
     (let key = ''Exploitability Classification: '';
          bang_rank0 = slice_from data (str_find data key + int (length key));
          registers0 = bang_rank0;
          bang_rank = slice_to bang_rank0 (str_find bang_rank0 newline);
          registers1 = slice_from registers0
                         (str_find registers0 rule_line + int (length rule_line) + 1);
          registers2 = slice_to registers1 (str_find registers1 rule_line);
          esp0 = slice_from registers2 (str_find registers2 ''esp='');
          esp = slice_to esp0 (str_find esp0 '' '');
          ebp0 = slice_from registers2 (str_find registers2 ''ebp='');
          ebp = slice_to ebp0 (str_find ebp0 '' '');
          registers3 = slice_to registers2 (str_find registers2 newline)
      in (bang_rank, registers3 @ '' '' @ esp @ '' '' @ ebp))"

text \<open>
  The loop \<open>for file in os.listdir(hashDir)\<close>. \<open>md5\<close> stands for
  \<open>hashlib.md5(...).hexdigest()\<close>, a function the model takes as a parameter. The test
  \<open>os.path.isdir(file)\<close> is made on the bare entry name, as in the source.
\<close>

fun scan_reports ::
  "(string \<Rightarrow> string) \<Rightarrow> filesystem \<Rightarrow> string \<Rightarrow> string list \<Rightarrow>
   string list \<Rightarrow> string list \<Rightarrow> exn + (string list \<times> string list)" where
  "scan_reports md5 fs hashDir [] registerHash exploitability =
     Inr (registerHash, exploitability)"
| "scan_reports md5 fs hashDir (file # files) registerHash exploitability =
     (if \<not> endswith file ''.txt'' \<or> path_isdir fs file
      then scan_reports md5 fs hashDir files registerHash exploitability
      else (case read_file fs (hashDir @ os_sep @ file) of
              Inl e \<Rightarrow> Inl e
            | Inr data \<Rightarrow>
                scan_reports md5 fs hashDir files
                  (registerHash @ [md5 (snd (parse_report data))])
                  (exploitability @ [fst (parse_report data)])))"

text \<open>
  \<^verbatim>\<open>
  regprev = registerHash[0]
  for register in registerHash:
      if register != regprev:
          registersChanged = True
          break
  \<close>
\<close>

fun registers_loop :: "string \<Rightarrow> string list \<Rightarrow> bool" where
  "registers_loop regprev [] = False"
| "registers_loop regprev (register # registerHash) =
     (if register \<noteq> regprev then True else registers_loop regprev registerHash)"

definition SortHashDir :: "(string \<Rightarrow> string) \<Rightarrow> config \<Rightarrow> filesystem \<Rightarrow> string \<Rightarrow> exn + string" where
  "SortHashDir md5 cfg fs hashDir =
     (case os_listdir fs hashDir of
        Inl e \<Rightarrow> Inl e
      | Inr files \<Rightarrow>
          (case scan_reports md5 fs hashDir files [] [] of
             Inl e \<Rightarrow> Inl e
           | Inr (registerHash, exploitability) \<Rightarrow>
               (case registerHash of
                  [] \<Rightarrow> Inl IndexError
                | regprev # _ \<Rightarrow>
                    (case merge_severity exploitability of
                       None \<Rightarrow> Inl IndexError
                     | Some best \<Rightarrow>
                         Inr (outputDir cfg @ os_sep
                              @ (if registers_loop regprev registerHash
                                 then ''RegistersChanged'' @ os_sep else [])
                              @ best @ os_sep @ basename hashDir)))))"

section \<open>The session controller: GenerateCrashReport\<close>

text \<open>
  What the debugger and the operator do during one run is an input of the model:
  \<^item> \<open>report_text\<close>: the text the debugger writes to \<open>logoutput\<close>, if it writes any;
  \<^item> \<open>exit_after\<close>: the number of one-second polls after which \<open>test.poll()\<close> stops
    being \<open>None\<close> (\<open>None\<close>: the process runs until it is killed);
  \<^item> \<open>raised\<close>: an exception raised inside the \<open>try\<close> block once the debugger has
    been launched (KeyboardInterrupt for an operator interrupt).
  The window killer and the process list touch no file and are left out.
\<close>

record session =
  report_text :: "string option"
  exit_after :: "nat option"
  raised :: "exn option"

text \<open>
  \<^verbatim>\<open>
  timeout = 0
  while test.poll() == None and timeout < max_time:
      time.sleep(1)
      timeout += 1
  \<close>
\<close>

definition still_running :: "nat option \<Rightarrow> nat \<Rightarrow> bool" where
  "still_running ex timeout = (case ex of None \<Rightarrow> True | Some k \<Rightarrow> timeout < k)"

function monitor :: "nat option \<Rightarrow> nat \<Rightarrow> nat \<Rightarrow> nat" where
  "monitor ex maxt timeout =
     (if still_running ex timeout \<and> timeout < maxt then monitor ex maxt (timeout + 1)
      else timeout)"
  by pat_completeness auto
termination
  by (relation "measure (\<lambda>(ex, maxt, timeout). maxt - timeout)") auto

declare monitor.simps [simp del]

text \<open>How control leaves the \<open>try\<close> block, with the file system at that point.\<close>

datatype try_result =
  Completed filesystem | ReturnedNone filesystem | Interrupted filesystem | Failed filesystem

definition try_block :: "config \<Rightarrow> session \<Rightarrow> filesystem \<Rightarrow> try_result" where
  "try_block cfg ses fs =
     (case (if path_exists fs (logoutput cfg) then os_remove fs (logoutput cfg) else Inr fs) of
        Inl e \<Rightarrow> Failed fs
      | Inr fs1 \<Rightarrow>
          (let fs2 = (case report_text ses of
                        None \<Rightarrow> fs1
                      | Some text \<Rightarrow> write_file fs1 (logoutput cfg) text)
           in case raised ses of
                Some KeyboardInterrupt \<Rightarrow> Interrupted fs2
              | Some e \<Rightarrow> Failed fs2
              | None \<Rightarrow>
                  (let timeout = monitor (exit_after ses) (max_time cfg) 0
                   in if timeout = max_time cfg \<and> \<not> path_exists fs2 (logoutput cfg)
                      then ReturnedNone fs2 else Completed fs2)))"

text \<open>
  \<^verbatim>\<open>
  while os.path.exists(testname):
      try: os.remove(testname)
      except: pass
  \<close>
  A removal that fails for a while and then succeeds ends as one that succeeds at once.
  A removal that always fails (the path is a directory) keeps the loop running: \<open>None\<close>.
\<close>

definition remove_loop :: "filesystem \<Rightarrow> string \<Rightarrow> filesystem option" where
  "remove_loop fs testname =
     (if path_exists fs testname
      then (case os_remove fs testname of Inl e \<Rightarrow> None | Inr fs' \<Rightarrow> Some fs')
      else Some fs)"

text \<open>The value returned, or the exception that leaves the function.\<close>

datatype ret = Returned "string option" | Raised exn

definition GenerateCrashReport ::
  "config \<Rightarrow> session \<Rightarrow> filesystem \<Rightarrow> string \<Rightarrow> (ret \<times> filesystem) option" where
  "GenerateCrashReport cfg ses fs file =
     (case (if \<not> path_exists fs (TestDir cfg) then os_mkdir fs (TestDir cfg) else Inr fs) of
        Inl e \<Rightarrow> Some (Raised e, fs)
      | Inr fs1 \<Rightarrow>
          (let testname = TestDir cfg @ os_sep @ basename file
           in case shutil_copy fs1 file testname of
                Inl e \<Rightarrow> Some (Raised e, fs1)
              | Inr fs2 \<Rightarrow>
                  (case try_block cfg ses fs2 of
                     ReturnedNone fs3 \<Rightarrow> Some (Returned None, fs3)
                   | Interrupted fs3 \<Rightarrow>
                       (case remove_loop fs3 testname of
                          None \<Rightarrow> None
                        | Some fs4 \<Rightarrow> Some (Raised KeyboardInterrupt, fs4))
                   | Failed fs3 \<Rightarrow>
                       (case remove_loop fs3 testname of
                          None \<Rightarrow> None
                        | Some fs4 \<Rightarrow>
                            if \<not> path_exists fs4 (logoutput cfg) then Some (Returned None, fs4)
                            else (case remove_loop fs4 testname of
                                    None \<Rightarrow> None
                                  | Some fs5 \<Rightarrow> Some (Returned (Some (logoutput cfg)), fs5)))
                   | Completed fs3 \<Rightarrow>
                       (case remove_loop fs3 testname of
                          None \<Rightarrow> None
                        | Some fs4 \<Rightarrow> Some (Returned (Some (logoutput cfg)), fs4)))))"

section \<open>The driver: ProcessDetailsFile and RunTriage\<close>

text \<open>
  \<^verbatim>\<open>
  def GetHash(data):
      hash = data[data.find("Hash=") + len("Hash="):]
      hash = hash[:hash.find(")")]
      return hash
  \<close>
\<close>

definition GetHash :: "string \<Rightarrow> string" where
  "GetHash data =
     (let hash = slice_from data (str_find data ''Hash='' + int (length ''Hash=''))
      in slice_to hash (str_find hash '')''))"

text \<open>
  BuildPath recurses on \<open>path[:path.rfind(os.sep)]\<close>, which is shorter than \<open>path\<close>
  unless \<open>path\<close> is empty; on the empty path the recursion never ends and Python
  raises RuntimeError (maximum recursion depth exceeded).
\<close>

lemma rfind_from_range:
  "sub \<noteq> [] \<Longrightarrow> rfind_from i s sub = -1 \<or> (i \<le> rfind_from i s sub \<and> rfind_from i s sub < i + int (length s))"
proof (induction s arbitrary: i)
  case Nil
  then show ?case by simp
next
  case (Cons c cs)
  from Cons.IH[OF Cons.prems, of "i + 1"] show ?case by (auto simp: Let_def)
qed

lemma slice_to_rfind_shorter:
  assumes "path \<noteq> []"
  shows "length (slice_to path (str_rfind path os_sep)) < length path"
proof -
  have "os_sep \<noteq> []" by (simp add: os_sep_def)
  from rfind_from_range[OF this, of 0 path]
  have "str_rfind path os_sep = -1
        \<or> (0 \<le> str_rfind path os_sep \<and> str_rfind path os_sep < int (length path))"
    by (simp add: str_rfind_def)
  moreover have "0 < length path" using assms by simp
  ultimately show ?thesis unfolding slice_to_def norm_index_def length_take by (auto; linarith)
qed

function BuildPath :: "filesystem \<Rightarrow> string \<Rightarrow> exn + filesystem" where
  "BuildPath fs path =
     (if \<not> path_exists fs path
      then (if path = [] then Inl RuntimeError
            else (case BuildPath fs (slice_to path (str_rfind path os_sep)) of
                    Inl e \<Rightarrow> Inl e
                  | Inr fs' \<Rightarrow> os_mkdir fs' path))
      else Inr fs)"
  by pat_completeness auto
termination
  by (relation "measure (\<lambda>(fs, path). length path)") (auto simp: slice_to_rfind_shorter)

declare BuildPath.simps [simp del]

text \<open>
  The last loop of ProcessDetailsFile:
  \<open>for newFile in os.listdir(group): MoveFile(group + os.sep + newFile, newPath)\<close>.
\<close>

fun move_group ::
  "(filesystem \<Rightarrow> string \<Rightarrow> string \<Rightarrow> (exn + filesystem) option) \<Rightarrow>
   filesystem \<Rightarrow> string \<Rightarrow> string \<Rightarrow> string list \<Rightarrow> (exn + filesystem) option" where
  "move_group rec fs grp newPath [] = Some (Inr fs)"
| "move_group rec fs grp newPath (newFile # files) =
     (case rec fs (grp @ os_sep @ newFile) newPath of
        None \<Rightarrow> None
      | Some (Inl e) \<Rightarrow> Some (Inl e)
      | Some (Inr fs') \<Rightarrow> move_group rec fs' grp newPath files)"

text \<open>Sequencing of calls that may raise or not return.\<close>

definition and_then ::
  "(exn + 'a) option \<Rightarrow> ('a \<Rightarrow> (exn + 'b) option) \<Rightarrow> (exn + 'b) option" where
  "and_then r f = (case r of None \<Rightarrow> None | Some (Inl e) \<Rightarrow> Some (Inl e) | Some (Inr x) \<Rightarrow> f x)"

text \<open>
  ProcessDetailsFile. \<open>n\<close> bounds the recursion depth of the calls it makes;
  \<open>md5\<close> is handed on to SortHashDir.
\<close>

definition ProcessDetailsFile ::
  "config \<Rightarrow> (string \<Rightarrow> string) \<Rightarrow> nat \<Rightarrow> filesystem \<Rightarrow> string \<Rightarrow> string \<Rightarrow>
   (exn + filesystem) option" where
  "ProcessDetailsFile cfg md5 n fs report crash_file =
     and_then (Some (read_file fs report)) (\<lambda>data.
     let hash = GetHash data in
     and_then (FindHashGroupPath n fs hash (outputDir cfg)) (\<lambda>found.
     and_then (case found of
                 Some grp \<Rightarrow> Some (Inr (grp, fs))
               | None \<Rightarrow>
                   and_then (Some (if \<not> path_exists fs (outputDir cfg @ os_sep @ hash)
                                   then os_mkdir fs (outputDir cfg @ os_sep @ hash)
                                   else Inr fs))
                     (\<lambda>fs1. Some (Inr (outputDir cfg @ os_sep @ hash, fs1))))
       (\<lambda>(grp, fs1).
     and_then (MoveFile n fs1 report (grp @ os_sep @ basename report)) (\<lambda>fs2.
     and_then (MoveFile n fs2 crash_file (grp @ os_sep @ basename crash_file)) (\<lambda>fs3.
     and_then (Some (SortHashDir md5 cfg fs3 grp)) (\<lambda>newPath.
     and_then (Some (BuildPath fs3 newPath)) (\<lambda>fs4.
     and_then (Some (os_listdir fs4 grp)) (\<lambda>files.
       move_group (MoveFile n) fs4 grp newPath files))))))))"

text \<open>
  How one pass over the candidates ends: normally, by a KeyboardInterrupt that reaches
  the handler of RunTriage, or by another exception, which nothing catches.
\<close>

datatype outcome = Done filesystem | Interrupt filesystem | Crash exn

definition to_outcome :: "(exn + filesystem) option \<Rightarrow> outcome option" where
  "to_outcome r = (case r of None \<Rightarrow> None | Some (Inl e) \<Rightarrow> Some (Crash e)
                   | Some (Inr fs) \<Rightarrow> Some (Done fs))"

text \<open>
  The failure branch of the loop body: the bucket is created if absent and the candidate
  is moved into it.
\<close>

definition move_to_bucket :: "config \<Rightarrow> nat \<Rightarrow> filesystem \<Rightarrow> string \<Rightarrow> outcome option" where
  "move_to_bucket cfg n fs file =
     (case (if \<not> path_exists fs (outputDir cfg @ os_sep @ ''UnableToReproduce'')
            then os_mkdir fs (outputDir cfg @ os_sep @ ''UnableToReproduce'')
            else Inr fs) of
        Inl e \<Rightarrow> Some (Crash e)
      | Inr fs2 \<Rightarrow>
          to_outcome (MoveFile n fs2 file
            (outputDir cfg @ os_sep @ ''UnableToReproduce'' @ os_sep @ basename file)))"

text \<open>
  The body of the loop \<open>for file in crashFiles\<close> of RunTriage. The test
  \<open>report == None or not "Hash=" in open(report, "r").read()\<close> opens the report only
  when there is one, and raises IOError when the file cannot be opened.
\<close>

definition triage_file ::
  "config \<Rightarrow> (string \<Rightarrow> string) \<Rightarrow> nat \<Rightarrow> session \<Rightarrow> filesystem \<Rightarrow> string \<Rightarrow> outcome option" where
  "triage_file cfg md5 n ses fs file =
     (case GenerateCrashReport cfg ses fs file of
        None \<Rightarrow> None
      | Some (Raised KeyboardInterrupt, fs1) \<Rightarrow> Some (Interrupt fs1)
      | Some (Raised e, fs1) \<Rightarrow> Some (Crash e)
      | Some (Returned None, fs1) \<Rightarrow> move_to_bucket cfg n fs1 file
      | Some (Returned (Some report), fs1) \<Rightarrow>
          (case read_file fs1 report of
             Inl e \<Rightarrow> Some (Crash e)
           | Inr data \<Rightarrow>
               if \<not> contains data ''Hash='' then move_to_bucket cfg n fs1 file
               else (case shutil_move fs1 report (file @ ''-'' @ logoutput cfg) of
                       Inl e \<Rightarrow> Some (Crash e)
                     | Inr fs2 \<Rightarrow>
                         to_outcome (ProcessDetailsFile cfg md5 n fs2
                                       (file @ ''-'' @ logoutput cfg) file))))"

text \<open>The loop over the candidates, each with the session its debugger run will be.\<close>

fun triage_loop ::
  "config \<Rightarrow> (string \<Rightarrow> string) \<Rightarrow> nat \<Rightarrow> filesystem \<Rightarrow> (string \<times> session) list \<Rightarrow>
   outcome option" where
  "triage_loop cfg md5 n fs [] = Some (Done fs)"
| "triage_loop cfg md5 n fs ((file, ses) # crashFiles) =
     (case triage_file cfg md5 n ses fs file of
        Some (Done fs') \<Rightarrow> triage_loop cfg md5 n fs' crashFiles
      | other \<Rightarrow> other)"

text \<open>
  RunTriage, without the GFlags calls and the progress output: the output directory is
  created, the candidates are triaged, and CleanupFiles runs at the end and in the
  KeyboardInterrupt handler, which then raises again.
\<close>

definition RunTriage ::
  "config \<Rightarrow> (string \<Rightarrow> string) \<Rightarrow> nat \<Rightarrow> filesystem \<Rightarrow> (string \<times> session) list \<Rightarrow>
   outcome option" where
  "RunTriage cfg md5 n fs crashFiles =
     (case (if \<not> path_exists fs (outputDir cfg) then os_mkdir fs (outputDir cfg) else Inr fs) of
        Inl e \<Rightarrow> Some (Crash e)
      | Inr fs1 \<Rightarrow>
          (case triage_loop cfg md5 n fs1 crashFiles of
             None \<Rightarrow> None
           | Some (Crash e) \<Rightarrow> Some (Crash e)
           | Some (Interrupt fs2) \<Rightarrow>
               (case CleanupFiles n fs2 (outputDir cfg) of
                  None \<Rightarrow> None
                | Some (Inl e) \<Rightarrow> Some (Crash e)
                | Some (Inr fs3) \<Rightarrow> Some (Interrupt fs3))
           | Some (Done fs2) \<Rightarrow>
               (case CleanupFiles n fs2 (outputDir cfg) of
                  None \<Rightarrow> None
                | Some (Inl e) \<Rightarrow> Some (Crash e)
                | Some (Inr fs3) \<Rightarrow> Some (Done fs3))))"

section \<open>Sample data\<close>

text \<open>
  A report text with the fields the script reads: the classification line, the hash
  token, and a block between two rule lines that starts with the register line.
\<close>

definition sample_report :: "string \<Rightarrow> string \<Rightarrow> string" where
  "sample_report label regs =
     ''Exploitability Classification: '' @ label @ newline
     @ ''Recommended Bug Title: Crash (Hash=0x1a2b.0x3c4d)'' @ newline
     @ rule_line @ newline @ regs @ newline @ rule_line @ newline"

section \<open>Lemmas about the file system and the rename\<close>

lemma map_of_delete_path: "map_of (delete_path fs p) q = (if q = p then None else map_of fs q)"
  by (induction fs) (auto simp: delete_path_def)

lemma map_of_write_file:
  "map_of (write_file fs p c) q = (if q = p then Some (File c) else map_of fs q)"
proof (cases "path_exists fs p")
  case True
  have "map_of (map (\<lambda>ke. if fst ke = p then (p, File c) else ke) fs) q
        = (if q = p then (if map_of fs p = None then None else Some (File c)) else map_of fs q)"
    by (induction fs) auto
  then show ?thesis using True by (auto simp: write_file_def path_exists_def)
next
  case False
  then have "map_of fs p = None" by (simp add: path_exists_def)
  then show ?thesis using False by (auto simp: write_file_def map_add_def split: option.splits)
qed

lemma find_dup_free: "\<not> path_exists fs (dup_name t (find_dup fs t d))"
proof (induction fs t d rule: find_dup.induct)
  case (1 fs destination dup)
  then show ?case by (subst find_dup.simps) simp
qed

lemma find_dup_ge: "d \<le> find_dup fs t d"
proof (induction fs t d rule: find_dup.induct)
  case (1 fs destination dup)
  show ?case
  proof (cases "path_exists fs (dup_name destination dup)")
    case True
    with 1 have "dup + 1 \<le> find_dup fs destination (dup + 1)" by simp
    then show ?thesis using True by (subst find_dup.simps) simp
  next
    case False
    then show ?thesis by (subst find_dup.simps) simp
  qed
qed

lemma find_dup_least:
  "d \<le> k \<Longrightarrow> k < find_dup fs t d \<Longrightarrow> path_exists fs (dup_name t k)"
proof (induction fs t d rule: find_dup.induct)
  case (1 fs destination dup)
  show ?case
  proof (cases "path_exists fs (dup_name destination dup)")
    case True
    then have eq: "find_dup fs destination dup = find_dup fs destination (dup + 1)"
      by (subst find_dup.simps) simp
    show ?thesis
    proof (cases "k = dup")
      case True
      then show ?thesis using \<open>path_exists fs (dup_name destination dup)\<close> by simp
    next
      case False
      with "1.prems" eq have "dup + 1 \<le> k" "k < find_dup fs destination (dup + 1)" by simp_all
      with "1.IH"[OF True] show ?thesis by simp
    qed
  next
    case False
    then have "find_dup fs destination dup = dup" by (subst find_dup.simps) simp
    with "1.prems" show ?thesis by simp
  qed
qed

lemma find_dup_eq:
  "d \<le> n \<Longrightarrow> \<not> path_exists fs (dup_name t n) \<Longrightarrow>
   (\<And>k. d \<le> k \<Longrightarrow> k < n \<Longrightarrow> path_exists fs (dup_name t k)) \<Longrightarrow> find_dup fs t d = n"
  by (metis find_dup_free find_dup_ge find_dup_least linorder_neqE_nat)

lemma resolve_destination_free: "\<not> path_exists fs (resolve_destination fs source destination)"
  by (simp add: resolve_destination_def Let_def find_dup_free)

lemma move_file_result:
  assumes src: "map_of fs source = Some (File c)"
    and par: "parent_ok fs (resolve_destination fs source destination)"
  shows "move_file fs source destination
         = Some (Inr (write_file (delete_path fs source) (resolve_destination fs source destination) c))"
proof -
  let ?new = "resolve_destination fs source destination"
  have free: "\<not> path_exists fs ?new" by (rule resolve_destination_free)
  then have nodir: "\<not> path_isdir fs ?new" by (simp add: path_exists_def path_isdir_def)
  have ne: "?new \<noteq> source" using free src by (auto simp: path_exists_def)
  have mv: "shutil_move fs source ?new = Inr (write_file (delete_path fs source) ?new c)"
    using src par nodir ne by (simp add: shutil_move_def)
  have gone: "\<not> path_exists (write_file (delete_path fs source) ?new c) source"
    using ne by (simp add: path_exists_def map_of_write_file map_of_delete_path)
  have ex: "path_exists fs source" using src by (simp add: path_exists_def)
  have "move_file fs source destination =
        (if path_exists fs source
         then (case shutil_move fs source ?new of
                 Inl e \<Rightarrow> None
               | Inr fs' \<Rightarrow> if path_exists fs' source then None else Some (Inr fs'))
         else Some (Inr fs))"
    by (simp add: move_file_def Let_def)
  then show ?thesis using ex mv gone by simp
qed

lemma rfind_from_absent: "c \<notin> set s \<Longrightarrow> rfind_from i s [c] = -1"
  by (induction s arbitrary: i) auto

lemma rfind_from_last:
  "0 \<le> i \<Longrightarrow> c \<notin> set b \<Longrightarrow> rfind_from i (a @ c # b) [c] = i + int (length a)"
proof (induction a arbitrary: i)
  case Nil
  then show ?case by (simp add: rfind_from_absent)
next
  case (Cons x a)
  have "rfind_from (i + 1) (a @ c # b) [c] = i + 1 + int (length a)"
    using Cons.prems by (intro Cons.IH) simp_all
  then show ?case using Cons.prems by (simp add: Let_def)
qed

lemma str_rfind_absent: "c \<notin> set s \<Longrightarrow> str_rfind s [c] = -1"
  by (simp add: str_rfind_def rfind_from_absent)

lemma str_rfind_last: "c \<notin> set b \<Longrightarrow> str_rfind (a @ c # b) [c] = int (length a)"
  by (simp add: str_rfind_def rfind_from_last)

lemma nat_int_Suc: "nat (int n + 1) = Suc n"
  by simp

lemma basename_join: "sep_char \<notin> set name \<Longrightarrow> basename (d @ os_sep @ name) = name"
  by (simp add: basename_def os_sep_def str_rfind_last slice_from_def norm_index_def nat_int_Suc del: of_nat_Suc)

lemma basename_plain: "sep_char \<notin> set name \<Longrightarrow> basename name = name"
  by (simp add: basename_def os_sep_def str_rfind_absent slice_from_def norm_index_def)

lemma parent_ok_join: "sep_char \<notin> set name \<Longrightarrow> parent_ok fs (d @ os_sep @ name) = path_isdir fs d"
  by (simp add: parent_ok_def os_sep_def str_rfind_last slice_to_def norm_index_def)

lemma parent_ok_plain: "sep_char \<notin> set name \<Longrightarrow> parent_ok fs name"
  by (simp add: parent_ok_def os_sep_def str_rfind_absent)

lemma dup_name_nodot:
  "CHR ''.'' \<notin> set t \<Longrightarrow> t \<noteq> [] \<Longrightarrow>
   dup_name t n = butlast t @ ''_('' @ str_nat n @ '')'' @ [last t]"
proof -
  assume nd: "CHR ''.'' \<notin> set t" and ne: "t \<noteq> []"
  have r: "str_rfind t ''.'' = -1" using nd by (rule str_rfind_absent)
  have a: "slice_to t (-1) = butlast t"
    using ne by (simp add: slice_to_def norm_index_def butlast_conv_take nat_diff_distrib')
  have "drop (length t - 1) t = [last t]"
    using ne by (metis append_butlast_last_id append_eq_conv_conj length_butlast)
  then have b: "slice_from t (-1) = [last t]"
    using ne by (simp add: slice_from_def norm_index_def nat_diff_distrib')
  show ?thesis by (simp add: dup_name_def r a b)
qed

lemma dup_name_dot:
  "CHR ''.'' \<notin> set ext \<Longrightarrow>
   dup_name (a @ ''.'' @ ext) n = a @ ''_('' @ str_nat n @ '')'' @ ''.'' @ ext"
  by (simp add: dup_name_def str_rfind_last slice_to_def slice_from_def norm_index_def)

lemma str_nat_digits: "set (str_nat n) \<subseteq> set ''0123456789''"
proof (induction n rule: str_nat.induct)
  case (1 n)
  have d: "\<And>k. k < 10 \<Longrightarrow> digit_char k \<in> set ''0123456789''"
    unfolding digit_char_def by (rule nth_mem) simp
  show ?case
  proof (cases "n < 10")
    case True
    then show ?thesis using d[of n] by (subst str_nat.simps) simp
  next
    case False
    have "digit_char (n mod 10) \<in> set ''0123456789''" by (rule d) simp
    with False "1.IH" show ?thesis by (subst str_nat.simps) simp
  qed
qed

lemma sep_notin_str_nat: "sep_char \<notin> set (str_nat n)"
  using str_nat_digits[of n] by (auto simp: sep_char_def)

lemma parent_ok_dup_nodot:
  assumes nd: "CHR ''.'' \<notin> set t" and ne: "t \<noteq> []" and l: "last t \<noteq> sep_char"
  shows "parent_ok fs (dup_name t n) = parent_ok fs t"
proof -
  let ?X = "''_('' @ str_nat n @ '')''"
  have X: "sep_char \<notin> set ?X" using sep_notin_str_nat[of n] by (simp add: sep_char_def)
  have t: "t = butlast t @ [last t]" using ne by simp
  have new: "dup_name t n = butlast t @ ?X @ [last t]" using nd ne by (simp add: dup_name_nodot)
  show ?thesis
  proof (cases "sep_char \<in> set (butlast t)")
    case True
    then obtain a1 a2 where a: "butlast t = a1 @ sep_char # a2" and a2: "sep_char \<notin> set a2"
      by (meson split_list_last)
    have t': "t = a1 @ os_sep @ (a2 @ [last t])" using t a by (simp add: os_sep_def)
    have new': "dup_name t n = a1 @ os_sep @ (a2 @ ?X @ [last t])"
      using new a by (simp add: os_sep_def)
    have "parent_ok fs t = path_isdir fs a1"
      by (subst t', rule parent_ok_join) (use a2 l in simp)
    moreover have "parent_ok fs (dup_name t n) = path_isdir fs a1"
      by (subst new', rule parent_ok_join) (use a2 l X in simp)
    ultimately show ?thesis by simp
  next
    case False
    then have "sep_char \<notin> set t" using l t by (metis Un_iff empty_iff empty_set set_ConsD set_append)
    then have "parent_ok fs t" by (rule parent_ok_plain)
    moreover have "sep_char \<notin> set (butlast t @ ?X @ [last t])" using False l X by simp
    then have "parent_ok fs (dup_name t n)" unfolding new by (rule parent_ok_plain)
    ultimately show ?thesis by simp
  qed
qed

lemma path_isdir_write_file:
  "path_isdir (write_file fs p c) q \<longleftrightarrow> q \<noteq> p \<and> path_isdir fs q"
  by (simp add: path_isdir_def map_of_write_file)

lemma path_isdir_delete_path:
  "path_isdir (delete_path fs p) q \<longleftrightarrow> q \<noteq> p \<and> path_isdir fs q"
  by (simp add: path_isdir_def map_of_delete_path)

lemma path_exists_write_file:
  "path_exists (write_file fs p c) q \<longleftrightarrow> q = p \<or> path_exists fs q"
  by (simp add: path_exists_def map_of_write_file)

lemma path_exists_delete_path:
  "path_exists (delete_path fs p) q \<longleftrightarrow> q \<noteq> p \<and> path_exists fs q"
  by (simp add: path_exists_def map_of_delete_path)

text \<open>MoveFile never removes a directory.\<close>

lemma move_file_cases:
  assumes "move_file fs source destination = Some (Inr fs')"
  shows "fs' = fs \<and> \<not> path_exists fs source
       \<or> (\<exists>c. map_of fs source = Some (File c)
              \<and> fs' = write_file (delete_path fs source)
                         (resolve_destination fs source destination) c)"
proof (cases "path_exists fs source")
  case False
  with assms show ?thesis by (simp add: move_file_def Let_def)
next
  case True
  let ?new = "resolve_destination fs source destination"
  have free: "\<not> path_exists fs ?new" by (rule resolve_destination_free)
  then have nodir: "\<not> path_isdir fs ?new" by (simp add: path_exists_def path_isdir_def)
  have ne: "?new \<noteq> source" using free True by auto
  from assms True have mv: "shutil_move fs source ?new = Inr fs'"
    by (simp add: move_file_def Let_def split: sum.splits if_splits)
  then obtain c where c: "map_of fs source = Some (File c)"
    by (auto simp: shutil_move_def split: option.splits entry.splits)
  with mv nodir ne have "fs' = write_file (delete_path fs source) ?new c"
    by (simp add: shutil_move_def Let_def split: if_splits)
  with c show ?thesis by blast
qed

lemma move_file_keeps_directories:
  assumes "move_file fs source destination = Some (Inr fs')" and "path_isdir fs p"
  shows "path_isdir fs' p"
proof -
  from move_file_cases[OF assms(1)] show ?thesis
  proof
    assume "fs' = fs \<and> \<not> path_exists fs source"
    with assms(2) show ?thesis by simp
  next
    assume "\<exists>c. map_of fs source = Some (File c)
              \<and> fs' = write_file (delete_path fs source)
                         (resolve_destination fs source destination) c"
    then obtain c where c: "map_of fs source = Some (File c)"
      and fs': "fs' = write_file (delete_path fs source)
                         (resolve_destination fs source destination) c" by blast
    have "p \<noteq> source" using c assms(2) by (auto simp: path_isdir_def)
    moreover have "p \<noteq> resolve_destination fs source destination"
      using resolve_destination_free[of fs source destination] assms(2)
      by (auto simp: path_isdir_def path_exists_def)
    ultimately show ?thesis using assms(2)
      by (simp add: fs' path_isdir_write_file path_isdir_delete_path)
  qed
qed

lemma os_mkdir_lookup:
  "os_mkdir fs d = Inr fs1 \<Longrightarrow> map_of fs1 p = (if p = d then Some Dir else map_of fs p)"
  by (auto simp: os_mkdir_def path_exists_def map_add_def split: if_splits option.splits)

lemma os_mkdir_keeps_directories:
  "os_mkdir fs d = Inr fs1 \<Longrightarrow> path_isdir fs p \<Longrightarrow> path_isdir fs1 p"
  by (simp add: path_isdir_def os_mkdir_lookup)

lemma move_children_keeps_directories:
  assumes rec: "\<And>fs s d fs' p. rec fs s d = Some (Inr fs') \<Longrightarrow> path_isdir fs p \<Longrightarrow> path_isdir fs' p"
  shows "move_children rec fs source destination files = Some (Inr fs') \<Longrightarrow>
         path_isdir fs p \<Longrightarrow> path_isdir fs' p"
proof (induction files arbitrary: fs)
  case Nil
  then show ?case by simp
next
  case (Cons x files)
  from Cons.prems(1) obtain fs1 where
    a: "rec fs (source @ os_sep @ x) (destination @ os_sep @ x) = Some (Inr fs1)"
    and b: "move_children rec fs1 source destination files = Some (Inr fs')"
    by (auto split: option.splits sum.splits)
  from rec[OF a Cons.prems(2)] have "path_isdir fs1 p" .
  from Cons.IH[OF b this] show ?case .
qed

lemma MoveFile_keeps_directories:
  "MoveFile n fs source destination = Some (Inr fs') \<Longrightarrow> path_isdir fs p \<Longrightarrow> path_isdir fs' p"
proof (induction n arbitrary: fs source destination fs' p)
  case 0
  then show ?case by simp
next
  case (Suc n)
  show ?case
  proof (cases "path_isdir fs source")
    case False
    with Suc.prems(1) have "move_file fs source destination = Some (Inr fs')" by simp
    then show ?thesis using Suc.prems(2) by (rule move_file_keeps_directories)
  next
    case True
    from Suc.prems(1) True obtain fs1 files where
      mk: "(if \<not> path_exists fs destination then os_mkdir fs destination else Inr fs) = Inr fs1"
      and ch: "move_children (MoveFile n) fs1 source destination files = Some (Inr fs')"
      by (auto split: sum.splits if_splits)
    have "path_isdir fs1 p"
      using mk Suc.prems(2) by (auto split: if_splits dest: os_mkdir_keeps_directories)
    with ch show ?thesis
      using move_children_keeps_directories[of "MoveFile n"] Suc.IH by blast
  qed
qed

lemma join_neq_self: "d @ os_sep @ x \<noteq> d"
  by (simp add: os_sep_def)

lemma basename_no_sep: "sep_char \<notin> set (basename p)"
proof (cases "sep_char \<in> set p")
  case True
  then obtain a b where p: "p = a @ sep_char # b" and b: "sep_char \<notin> set b"
    by (meson split_list_last)
  have "basename (a @ os_sep @ b) = b" using b by (rule basename_join)
  then show ?thesis using p b by (simp add: os_sep_def)
next
  case False
  then show ?thesis by (simp add: basename_plain)
qed

section \<open>Looking a signature up in the output tree\<close>

text \<open>
  The working directory holds the output root \<open>Crashes\<close> and nothing else; the group of
  signature \<open>abc\<close> has been filed under \<open>Crashes/UNKNOWN\<close> by an earlier input.
\<close>

definition fs_filed :: filesystem where
  "fs_filed =
     [(''Crashes'', Dir), (''Crashes/UNKNOWN'', Dir), (''Crashes/UNKNOWN/abc'', Dir),
      (''Crashes/UNKNOWN/abc/crash.bin'', File ''input'')]"

text \<open>
  C1. FindHashGroupPath asks \<open>os.path.isdir(file)\<close> of the bare entry name, which the
  operating system resolves against the working directory and not against \<open>baseDir\<close>.
  No \<open>UNKNOWN\<close> stands in the working directory, so the search neither descends into
  \<open>Crashes/UNKNOWN\<close> nor sees \<open>abc\<close>: it returns none although the directory
  \<open>Crashes/UNKNOWN/abc\<close> exists. (With directories \<open>UNKNOWN\<close> and \<open>abc\<close> added to the
  working directory, the same search finds it.)
\<close>

theorem FindHashGroupPath_misses_existing_group:
  "path_isdir fs_filed ''Crashes/UNKNOWN/abc''
   \<and> FindHashGroupPath 4 fs_filed ''abc'' ''Crashes'' = Some (Inr None)
   \<and> FindHashGroupPath 4 ((''UNKNOWN'', Dir) # (''abc'', Dir) # fs_filed) ''abc'' ''Crashes''
       = Some (Inr (Some ''Crashes/UNKNOWN/abc''))"
  by code_simp

text \<open>
  The consequence for the output tree. The group of hash \<open>0x1a2b.0x3c4d\<close> is filed
  under UNKNOWN; a second input with the same hash, rated EXPLOITABLE, is processed. The
  lookup misses the group, a new one is created and classified on its own, and the
  signature now has a directory at two severities.
\<close>

definition fs_second :: filesystem where
  "fs_second =
     [(''Crashes'', Dir), (''Crashes/UNKNOWN'', Dir), (''Crashes/UNKNOWN/0x1a2b.0x3c4d'', Dir),
      (''Crashes/UNKNOWN/0x1a2b.0x3c4d/a.bin-crash_details.txt'',
         File (sample_report ''UNKNOWN'' ''eax=1 esp=2 ebp=3 x'')),
      (''Crashes/UNKNOWN/0x1a2b.0x3c4d/a.bin'', File ''input a''),
      (''Crashes/b.bin'', File ''input b''),
      (''Crashes/b.bin-crash_details.txt'',
         File (sample_report ''EXPLOITABLE'' ''eax=1 esp=2 ebp=3 x''))]"

lemma ProcessDetailsFile_duplicates_group:
  "(case ProcessDetailsFile default_config (\<lambda>s. s) 3 fs_second
           ''Crashes/b.bin-crash_details.txt'' ''Crashes/b.bin'' of
      Some (Inr fs') \<Rightarrow>
        path_isdir fs' ''Crashes/UNKNOWN/0x1a2b.0x3c4d''
        \<and> map_of fs' ''Crashes/UNKNOWN/0x1a2b.0x3c4d/a.bin'' = Some (File ''input a'')
        \<and> path_isdir fs' ''Crashes/EXPLOITABLE/0x1a2b.0x3c4d''
        \<and> map_of fs' ''Crashes/EXPLOITABLE/0x1a2b.0x3c4d/b.bin'' = Some (File ''input b'')
    | _ \<Rightarrow> False)"
  by code_simp

section \<open>Pruning is not a fixed point\<close>

text \<open>
  The output tree after a group has been promoted from UNKNOWN to EXPLOITABLE: the old
  group directory \<open>Crashes/UNKNOWN/abc\<close> has been emptied by MoveFile.
\<close>

definition fs_promoted :: filesystem where
  "fs_promoted =
     [(''Crashes'', Dir), (''Crashes/UNKNOWN'', Dir), (''Crashes/UNKNOWN/abc'', Dir),
      (''Crashes/EXPLOITABLE'', Dir), (''Crashes/EXPLOITABLE/abc'', Dir),
      (''Crashes/EXPLOITABLE/abc/crash.bin'', File ''input'')]"

definition fs_pruned_once :: filesystem where
  "fs_pruned_once =
     [(''Crashes'', Dir), (''Crashes/UNKNOWN'', Dir),
      (''Crashes/EXPLOITABLE'', Dir), (''Crashes/EXPLOITABLE/abc'', Dir),
      (''Crashes/EXPLOITABLE/abc/crash.bin'', File ''input'')]"

definition fs_pruned_twice :: filesystem where
  "fs_pruned_twice =
     [(''Crashes'', Dir),
      (''Crashes/EXPLOITABLE'', Dir), (''Crashes/EXPLOITABLE/abc'', Dir),
      (''Crashes/EXPLOITABLE/abc/crash.bin'', File ''input'')]"

text \<open>
  C2. CleanupFiles lists a directory and tests the listing for emptiness before it
  descends into the children, and never looks at the directory again. One run removes
  \<open>Crashes/UNKNOWN/abc\<close> and leaves its parent \<open>Crashes/UNKNOWN\<close> behind, now empty; a
  second run, right after the first, removes that parent. The second run is not a
  no-op, and the first did not remove children before parents.
\<close>

theorem CleanupFiles_second_run_changes_tree:
  "CleanupFiles 4 fs_promoted ''Crashes'' = Some (Inr fs_pruned_once)
   \<and> os_listdir fs_pruned_once ''Crashes/UNKNOWN'' = Inr []
   \<and> CleanupFiles 4 fs_pruned_once ''Crashes'' = Some (Inr fs_pruned_twice)
   \<and> fs_pruned_twice \<noteq> fs_pruned_once"
  by code_simp

section \<open>The scratch copy after a session\<close>

text \<open>
  One candidate input in the input directory, the scratch directory in place; a target
  that neither crashes nor exits, so that the poll loop runs into \<open>max_time\<close> and no
  report is written. For comparison, sessions that are interrupted by the operator, that
  fail with another exception, and that produce a report.
\<close>

definition fs_candidate :: filesystem where
  "fs_candidate = [(''Crashes'', Dir), (''Crashes/a.bin'', File ''input''), (''Tests'', Dir)]"

definition hung_session :: session where
  "hung_session = \<lparr>report_text = None, exit_after = None, raised = None\<rparr>"

definition interrupted_session :: session where
  "interrupted_session = \<lparr>report_text = None, exit_after = None, raised = Some KeyboardInterrupt\<rparr>"

definition failed_session :: session where
  "failed_session = \<lparr>report_text = None, exit_after = None, raised = Some OSError\<rparr>"

definition crashing_session :: session where
  "crashing_session = \<lparr>report_text = Some ''report'', exit_after = Some 2, raised = None\<rparr>"

text \<open>
  C3. When the poll loop times out and no report exists, GenerateCrashReport leaves by
  the \<open>return None\<close> inside the \<open>try\<close> block, which no removal loop follows: the
  scratch copy \<open>Tests/a.bin\<close> is still there when the call returns. On the other exit
  paths (interrupt, other exception, report produced) the copy is removed.
\<close>

theorem GenerateCrashReport_timeout_keeps_scratch_copy:
  "GenerateCrashReport default_config hung_session fs_candidate ''Crashes/a.bin''
     = Some (Returned None,
             [(''Crashes'', Dir), (''Crashes/a.bin'', File ''input''), (''Tests'', Dir),
              (''Tests/a.bin'', File ''input'')])
   \<and> GenerateCrashReport default_config interrupted_session fs_candidate ''Crashes/a.bin''
     = Some (Raised KeyboardInterrupt, fs_candidate)
   \<and> GenerateCrashReport default_config failed_session fs_candidate ''Crashes/a.bin''
     = Some (Returned None, fs_candidate)
   \<and> GenerateCrashReport default_config crashing_session fs_candidate ''Crashes/a.bin''
     = Some (Returned (Some ''crash_details.txt''),
             fs_candidate @ [(''crash_details.txt'', File ''report'')])"
  by code_simp

section \<open>Moving a directory\<close>

text \<open>
  The paths MoveFile reaches from a directory: \<open>d @ rel_path [x1, ..., xk]\<close> is
  \<open>d/x1/.../xk\<close>, and \<open>chain fs d [x1, ..., xk]\<close> says that the names are listing
  entries (not empty, without separator) and that \<open>d\<close>, \<open>d/x1\<close>, ...,
  \<open>d/x1/.../x(k-1)\<close> are directories, so that the recursion descends to
  \<open>d/x1/.../xk\<close> if that path exists.
\<close>

fun rel_path :: "string list \<Rightarrow> string" where
  "rel_path [] = []"
| "rel_path (x # xs) = os_sep @ x @ rel_path xs"

fun chain :: "filesystem \<Rightarrow> string \<Rightarrow> string list \<Rightarrow> bool" where
  "chain fs d [] = True"
| "chain fs d (x # xs) =
     (path_isdir fs d \<and> x \<noteq> [] \<and> sep_char \<notin> set x \<and> chain fs (d @ os_sep @ x) xs)"

text \<open>
  The place \<open>p\<close> is free for the entry \<open>e\<close>: nothing is there, or \<open>e\<close> is a directory
  and \<open>p\<close> is one too (MoveFile then moves into the existing directory).
\<close>

definition free_for :: "filesystem \<Rightarrow> entry \<Rightarrow> string \<Rightarrow> bool" where
  "free_for fs e p = (path_exists fs p \<longrightarrow> e = Dir \<and> path_isdir fs p)"

text \<open>Neither path is the other one or lies below it.\<close>

definition unrelated :: "string \<Rightarrow> string \<Rightarrow> bool" where
  "unrelated a b = (a \<noteq> b \<and> \<not> startswith a (b @ os_sep) \<and> \<not> startswith b (a @ os_sep))"

lemma startswith_iff: "startswith s sub \<longleftrightarrow> (\<exists>r. s = sub @ r)"
  by (induction s sub rule: startswith.induct) auto

lemma rel_path_head: "rel_path xs = [] \<or> (\<exists>r. rel_path xs = sep_char # r)"
  by (cases xs) (simp_all add: os_sep_def)

lemma unrelated_disjoint:
  assumes u: "unrelated a b"
  shows "a @ rel_path xs \<noteq> b @ rel_path ys"
proof
  assume "a @ rel_path xs = b @ rel_path ys"
  then obtain us where "a = b @ us \<and> us @ rel_path xs = rel_path ys
                      \<or> a @ us = b \<and> rel_path xs = us @ rel_path ys"
    by (auto simp: append_eq_append_conv2)
  then show False
  proof
    assume h: "a = b @ us \<and> us @ rel_path xs = rel_path ys"
    show False
    proof (cases us)
      case Nil
      with h u show False by (simp add: unrelated_def)
    next
      case (Cons c cs)
      with h rel_path_head[of ys] have "c = sep_char" by auto
      with h Cons have "startswith a (b @ os_sep)"
        by (simp add: startswith_iff os_sep_def)
      with u show False by (simp add: unrelated_def)
    qed
  next
    assume h: "a @ us = b \<and> rel_path xs = us @ rel_path ys"
    show False
    proof (cases us)
      case Nil
      with h u show False by (simp add: unrelated_def)
    next
      case (Cons c cs)
      with h rel_path_head[of xs] have "c = sep_char" by auto
      with h Cons have "startswith b (a @ os_sep)"
        by (auto simp: startswith_iff os_sep_def)
      with u show False by (simp add: unrelated_def)
    qed
  qed
qed

lemma takeWhile_name:
  assumes "sep_char \<notin> set x"
  shows "takeWhile (\<lambda>c. c \<noteq> sep_char) (x @ rel_path xs) = x"
proof -
  have a: "\<And>c. c \<in> set x \<Longrightarrow> c \<noteq> sep_char" using assms by auto
  have b: "takeWhile (\<lambda>c. c \<noteq> sep_char) (rel_path xs) = []"
    using rel_path_head[of xs] by auto
  have "takeWhile (\<lambda>c. c \<noteq> sep_char) (x @ rel_path xs)
        = x @ takeWhile (\<lambda>c. c \<noteq> sep_char) (rel_path xs)"
    by (rule takeWhile_append2) (rule a)
  with b show ?thesis by simp
qed

lemma sibling_disjoint:
  assumes "x \<noteq> y" and "sep_char \<notin> set x" and "sep_char \<notin> set y"
  shows "d @ rel_path (x # xs) \<noteq> d @ rel_path (y # ys)"
proof
  assume "d @ rel_path (x # xs) = d @ rel_path (y # ys)"
  then have "x @ rel_path xs = y @ rel_path ys" by simp
  then have "takeWhile (\<lambda>c. c \<noteq> sep_char) (x @ rel_path xs)
             = takeWhile (\<lambda>c. c \<noteq> sep_char) (y @ rel_path ys)" by simp
  with assms show False by (simp add: takeWhile_name)
qed

lemma path_exists_iff: "path_exists fs p \<longleftrightarrow> p \<in> set (map fst fs)"
  by (simp add: path_exists_def map_of_eq_None_iff)

lemma is_child_iff:
  "is_child d k \<longleftrightarrow> (\<exists>x. k = d @ os_sep @ x \<and> x \<noteq> [] \<and> sep_char \<notin> set x)"
  by (auto simp: is_child_def startswith_iff os_sep_def)

lemma os_listdir_mem:
  assumes "os_listdir fs d = Inr names"
  shows "x \<in> set names \<longleftrightarrow> x \<noteq> [] \<and> sep_char \<notin> set x \<and> path_exists fs (d @ os_sep @ x)"
proof -
  from assms have n: "names = map (\<lambda>k. drop (length d + 1) k) (filter (is_child d) (map fst fs))"
    by (simp add: os_listdir_def split: if_splits)
  show ?thesis
  proof
    assume "x \<in> set names"
    with n obtain k where k: "k \<in> set (map fst fs)" "is_child d k" "x = drop (length d + 1) k"
      by auto
    from k(2) obtain y where y: "k = d @ os_sep @ y" "y \<noteq> []" "sep_char \<notin> set y"
      by (auto simp: is_child_iff)
    with k(3) have "x = y" by (simp add: os_sep_def)
    with y k(1) show "x \<noteq> [] \<and> sep_char \<notin> set x \<and> path_exists fs (d @ os_sep @ x)"
      by (simp add: path_exists_iff)
  next
    assume h: "x \<noteq> [] \<and> sep_char \<notin> set x \<and> path_exists fs (d @ os_sep @ x)"
    then have "d @ os_sep @ x \<in> set (map fst fs)" by (simp add: path_exists_iff)
    moreover have "is_child d (d @ os_sep @ x)" using h by (auto simp: is_child_iff)
    moreover have "drop (length d + 1) (d @ os_sep @ x) = x" by (simp add: os_sep_def)
    ultimately show "x \<in> set names" unfolding n by force
  qed
qed

lemma os_listdir_distinct:
  assumes "os_listdir fs d = Inr names" and "distinct (map fst fs)"
  shows "distinct names"
proof -
  from assms have n: "names = map (\<lambda>k. drop (length d + 1) k) (filter (is_child d) (map fst fs))"
    by (simp add: os_listdir_def split: if_splits)
  have "inj_on (\<lambda>k. drop (length d + 1) k) (set (filter (is_child d) (map fst fs)))"
  proof (rule inj_onI)
    fix a b
    assume a: "a \<in> set (filter (is_child d) (map fst fs))"
      and b: "b \<in> set (filter (is_child d) (map fst fs))"
      and e: "drop (length d + 1) a = drop (length d + 1) b"
    from a obtain x where x: "a = d @ os_sep @ x" by (auto simp: is_child_iff)
    from b obtain y where y: "b = d @ os_sep @ y" by (auto simp: is_child_iff)
    from e x y show "a = b" by (simp add: os_sep_def)
  qed
  with assms(2) show ?thesis unfolding n by (simp add: distinct_map)
qed

lemma chain_cong:
  "(\<And>ys. map_of fs' (d @ rel_path ys) = map_of fs (d @ rel_path ys)) \<Longrightarrow>
   chain fs' d xs = chain fs d xs"
proof (induction xs arbitrary: d)
  case Nil
  show ?case by simp
next
  case (Cons x xs)
  have a: "path_isdir fs' d = path_isdir fs d"
    using Cons.prems[of "[]"] by (simp add: path_isdir_def)
  have "\<And>ys. map_of fs' ((d @ os_sep @ x) @ rel_path ys) = map_of fs ((d @ os_sep @ x) @ rel_path ys)"
    using Cons.prems[of "x # _"] by simp
  from Cons.IH[OF this] a show ?case by simp
qed

text \<open>
  The entries reached from \<open>d\<close>; what a move of \<open>s\<close> to \<open>t\<close> owes them (\<open>carried\<close>:
  files arrive and leave, directories arrive and stay) and every other path
  (\<open>untouched\<close>); and the conditions under which it is proved: the two trees do not
  meet (\<open>apart\<close>), every reached entry finds its place free (\<open>fits\<close>), and the
  recursion bound exceeds the depth of the tree (\<open>shallow\<close>).
\<close>

definition reached :: "filesystem \<Rightarrow> string \<Rightarrow> string list \<Rightarrow> bool" where
  "reached fs d xs = (chain fs d xs \<and> path_exists fs (d @ rel_path xs))"

definition carried :: "filesystem \<Rightarrow> filesystem \<Rightarrow> string \<Rightarrow> string \<Rightarrow> bool" where
  "carried fs fs' s t =
     (\<forall>xs. chain fs s xs \<longrightarrow>
        (\<forall>c. map_of fs (s @ rel_path xs) = Some (File c) \<longrightarrow>
               map_of fs' (t @ rel_path xs) = Some (File c) \<and> map_of fs' (s @ rel_path xs) = None)
        \<and> (path_isdir fs (s @ rel_path xs) \<longrightarrow>
               path_isdir fs' (t @ rel_path xs) \<and> path_isdir fs' (s @ rel_path xs)))"

definition untouched :: "filesystem \<Rightarrow> filesystem \<Rightarrow> string \<Rightarrow> string \<Rightarrow> bool" where
  "untouched fs fs' s t =
     (\<forall>p. (\<forall>xs. reached fs s xs \<longrightarrow> p \<noteq> s @ rel_path xs \<and> p \<noteq> t @ rel_path xs) \<longrightarrow>
          map_of fs' p = map_of fs p)"

definition apart :: "string \<Rightarrow> string \<Rightarrow> bool" where
  "apart s t = (\<forall>xs ys. s @ rel_path xs \<noteq> t @ rel_path ys)"

definition fits :: "filesystem \<Rightarrow> string \<Rightarrow> string \<Rightarrow> bool" where
  "fits fs s t =
     (\<forall>xs e. chain fs s xs \<and> map_of fs (s @ rel_path xs) = Some e \<longrightarrow>
             free_for fs e (t @ rel_path xs))"

definition shallow :: "nat \<Rightarrow> filesystem \<Rightarrow> string \<Rightarrow> bool" where
  "shallow n fs s = (\<forall>xs. reached fs s xs \<longrightarrow> length xs < n)"

lemma apart_child: "apart s t \<Longrightarrow> apart (s @ os_sep @ x) (t @ os_sep @ y)"
  unfolding apart_def
proof (intro allI)
  fix xs ys
  assume a: "\<forall>xs ys. s @ rel_path xs \<noteq> t @ rel_path ys"
  from a have "s @ rel_path (x # xs) \<noteq> t @ rel_path (y # ys)" by blast
  then show "(s @ os_sep @ x) @ rel_path xs \<noteq> (t @ os_sep @ y) @ rel_path ys" by simp
qed

lemma apart_sym: "apart s t \<Longrightarrow> apart t s"
  unfolding apart_def by metis

lemma siblings_apart:
  "x \<noteq> y \<Longrightarrow> sep_char \<notin> set x \<Longrightarrow> sep_char \<notin> set y \<Longrightarrow>
   apart (d @ os_sep @ x) (d @ os_sep @ y)"
  unfolding apart_def using sibling_disjoint[of x y d] by simp

lemma free_for_cong: "map_of fs' p = map_of fs p \<Longrightarrow> free_for fs' e p = free_for fs e p"
  by (simp add: free_for_def path_exists_def path_isdir_def)

text \<open>A tree that is left alone looks the same afterwards.\<close>

lemma same_tree:
  assumes same: "\<And>ys. map_of fs' (d @ rel_path ys) = map_of fs (d @ rel_path ys)"
  shows "chain fs' d xs = chain fs d xs" and "reached fs' d xs = reached fs d xs"
proof -
  show c: "chain fs' d xs = chain fs d xs" using same by (rule chain_cong)
  show "reached fs' d xs = reached fs d xs"
    unfolding reached_def c using same[of xs] by (simp add: path_exists_def)
qed

lemma untouched_apart:
  assumes u: "untouched fs fs' s t" and a: "apart d s" and b: "apart d t"
  shows "map_of fs' (d @ rel_path ys) = map_of fs (d @ rel_path ys)"
proof -
  have "\<forall>xs. reached fs s xs \<longrightarrow>
          d @ rel_path ys \<noteq> s @ rel_path xs \<and> d @ rel_path ys \<noteq> t @ rel_path xs"
    using a b unfolding apart_def by blast
  with u show ?thesis unfolding untouched_def by blast
qed

lemma move_plain_file:
  assumes src: "map_of fs s = Some (File c)" and dist: "distinct (map fst fs)"
    and free: "\<not> path_exists fs t" and par: "parent_ok fs t"
  shows "\<exists>fs'. move_file fs s t = Some (Inr fs')
           \<and> (\<forall>p. map_of fs' p = (if p = t then Some (File c) else if p = s then None
                                   else map_of fs p))
           \<and> distinct (map fst fs')"
proof -
  have nd: "\<not> path_isdir fs t" using free by (simp add: path_exists_def path_isdir_def)
  have rd: "resolve_destination fs s t = t" using nd free by (simp add: resolve_destination_def)
  have mv: "move_file fs s t = Some (Inr (write_file (delete_path fs s) t c))"
    using move_file_result[OF src, of t] par rd by simp
  have fr: "\<not> path_exists (delete_path fs s) t"
    using free by (simp add: path_exists_def map_of_delete_path)
  then have wf: "write_file (delete_path fs s) t c = delete_path fs s @ [(t, File c)]"
    by (simp add: write_file_def)
  have look: "\<forall>p. map_of (write_file (delete_path fs s) t c) p
                 = (if p = t then Some (File c) else if p = s then None else map_of fs p)"
    using fr by (auto simp: wf map_add_def map_of_delete_path path_exists_def split: option.splits)
  have "t \<notin> set (map fst (delete_path fs s))" using fr by (simp add: path_exists_iff)
  moreover have "distinct (map fst (delete_path fs s))"
    using dist unfolding delete_path_def by (rule distinct_map_filter)
  ultimately have "distinct (map fst (write_file (delete_path fs s) t c))" by (simp add: wf)
  with mv look show ?thesis by blast
qed

definition movable :: "nat \<Rightarrow> filesystem \<Rightarrow> string \<Rightarrow> string \<Rightarrow> bool" where
  "movable n fs s t =
     (path_exists fs s \<and> distinct (map fst fs) \<and> apart s t
      \<and> (path_exists fs t \<or> parent_ok fs t) \<and> fits fs s t \<and> shallow n fs s)"

definition moved :: "filesystem \<Rightarrow> filesystem \<Rightarrow> string \<Rightarrow> string \<Rightarrow> bool" where
  "moved fs fs' s t = (carried fs fs' s t \<and> untouched fs fs' s t \<and> distinct (map fst fs'))"

lemma fits_cong:
  assumes "\<And>ys. map_of fs' (s @ rel_path ys) = map_of fs (s @ rel_path ys)"
    and "\<And>ys. map_of fs' (t @ rel_path ys) = map_of fs (t @ rel_path ys)"
  shows "fits fs' s t = fits fs s t"
  unfolding fits_def same_tree(1)[of fs' s fs, OF assms(1)] assms(1)
    free_for_cong[OF assms(2)] ..

lemma shallow_cong:
  assumes "\<And>ys. map_of fs' (s @ rel_path ys) = map_of fs (s @ rel_path ys)"
  shows "shallow n fs' s = shallow n fs s"
  unfolding shallow_def same_tree(2)[of fs' s fs, OF assms] ..

lemma carried_cong:
  assumes "\<And>ys. map_of fs1 (s @ rel_path ys) = map_of fs (s @ rel_path ys)"
  shows "carried fs1 fs' s t = carried fs fs' s t"
  unfolding carried_def path_isdir_def same_tree(1)[of fs1 s fs, OF assms] assms ..

lemma carried_later:
  assumes c: "carried fs fa s t"
    and a: "\<And>ys. map_of fs' (s @ rel_path ys) = map_of fa (s @ rel_path ys)"
    and b: "\<And>ys. map_of fs' (t @ rel_path ys) = map_of fa (t @ rel_path ys)"
  shows "carried fs fs' s t"
  using c unfolding carried_def path_isdir_def a b .

lemma move_children_moved:
  assumes IH: "\<And>fs s t. movable n fs s t \<Longrightarrow>
                 \<exists>fs'. MoveFile n fs s t = Some (Inr fs') \<and> moved fs fs' s t"
  shows "distinct names \<Longrightarrow>
    \<forall>x \<in> set names. x \<noteq> [] \<and> sep_char \<notin> set x \<and> path_exists fs (s @ os_sep @ x) \<Longrightarrow>
    path_isdir fs s \<Longrightarrow> path_isdir fs t \<Longrightarrow> distinct (map fst fs) \<Longrightarrow> apart s t \<Longrightarrow>
    \<forall>x \<in> set names. fits fs (s @ os_sep @ x) (t @ os_sep @ x) \<Longrightarrow>
    \<forall>x \<in> set names. shallow n fs (s @ os_sep @ x) \<Longrightarrow>
    \<exists>fs'. move_children (MoveFile n) fs s t names = Some (Inr fs')
       \<and> (\<forall>x \<in> set names. carried fs fs' (s @ os_sep @ x) (t @ os_sep @ x))
       \<and> (\<forall>p. (\<forall>x \<in> set names. \<forall>xs. reached fs (s @ os_sep @ x) xs \<longrightarrow>
                  p \<noteq> (s @ os_sep @ x) @ rel_path xs \<and> p \<noteq> (t @ os_sep @ x) @ rel_path xs)
              \<longrightarrow> map_of fs' p = map_of fs p)
       \<and> distinct (map fst fs')"
proof (induction names arbitrary: fs)
  case Nil
  then show ?case by simp
next
  case (Cons x names)
  let ?sx = "s @ os_sep @ x" and ?tx = "t @ os_sep @ x"
  have px: "x \<noteq> []" "sep_char \<notin> set x" "path_exists fs ?sx" using Cons.prems(2) by auto
  have notin: "x \<notin> set names" and dn: "distinct names" using Cons.prems(1) by auto
  have other: "\<And>y. y \<in> set names \<Longrightarrow> y \<noteq> x \<and> y \<noteq> [] \<and> sep_char \<notin> set y"
    using notin Cons.prems(2) by auto
  have ap: "apart s t" by (rule Cons.prems(6))
  have "movable n fs ?sx ?tx"
    unfolding movable_def
    using px Cons.prems(4,5,7,8) apart_child[OF ap, of x x] by (simp add: parent_ok_join)
  from IH[OF this] obtain fa where run: "MoveFile n fs ?sx ?tx = Some (Inr fa)"
    and car: "carried fs fa ?sx ?tx" and unt: "untouched fs fa ?sx ?tx"
    and da: "distinct (map fst fa)"
    unfolding moved_def by blast
  have ss: "\<And>y. y \<in> set names \<Longrightarrow> apart (s @ os_sep @ y) ?sx"
    using other px(2) by (simp add: siblings_apart)
  have st: "\<And>y. apart (s @ os_sep @ y) ?tx" using ap by (rule apart_child)
  have ts: "\<And>y. apart (t @ os_sep @ y) ?sx" using apart_sym[OF ap] by (rule apart_child)
  have tt: "\<And>y. y \<in> set names \<Longrightarrow> apart (t @ os_sep @ y) ?tx"
    using other px(2) by (simp add: siblings_apart)
  have as: "\<And>y ys. y \<in> set names \<Longrightarrow>
              map_of fa ((s @ os_sep @ y) @ rel_path ys) = map_of fs ((s @ os_sep @ y) @ rel_path ys)"
    using untouched_apart[OF unt ss st] by blast
  have at: "\<And>y ys. y \<in> set names \<Longrightarrow>
              map_of fa ((t @ os_sep @ y) @ rel_path ys) = map_of fs ((t @ os_sep @ y) @ rel_path ys)"
    using untouched_apart[OF unt ts tt] by blast
  have p2: "\<forall>y \<in> set names. y \<noteq> [] \<and> sep_char \<notin> set y \<and> path_exists fa (s @ os_sep @ y)"
  proof
    fix y assume y: "y \<in> set names"
    then have "path_exists fs (s @ os_sep @ y)" using Cons.prems(2) by simp
    moreover have "map_of fa (s @ os_sep @ y) = map_of fs (s @ os_sep @ y)"
      using as[OF y, of "[]"] by simp
    ultimately show "y \<noteq> [] \<and> sep_char \<notin> set y \<and> path_exists fa (s @ os_sep @ y)"
      using other[OF y] by (simp add: path_exists_def)
  qed
  have p3: "path_isdir fa s" using run Cons.prems(3) by (rule MoveFile_keeps_directories)
  have p4: "path_isdir fa t" using run Cons.prems(4) by (rule MoveFile_keeps_directories)
  have p7: "\<forall>y \<in> set names. fits fa (s @ os_sep @ y) (t @ os_sep @ y)"
  proof
    fix y assume y: "y \<in> set names"
    have "fits fa (s @ os_sep @ y) (t @ os_sep @ y) = fits fs (s @ os_sep @ y) (t @ os_sep @ y)"
      by (rule fits_cong) (rule as[OF y], rule at[OF y])
    with Cons.prems(7) y show "fits fa (s @ os_sep @ y) (t @ os_sep @ y)" by simp
  qed
  have p8: "\<forall>y \<in> set names. shallow n fa (s @ os_sep @ y)"
  proof
    fix y assume y: "y \<in> set names"
    have "shallow n fa (s @ os_sep @ y) = shallow n fs (s @ os_sep @ y)"
      by (rule shallow_cong) (rule as[OF y])
    with Cons.prems(8) y show "shallow n fa (s @ os_sep @ y)" by simp
  qed
  from Cons.IH[OF dn p2 p3 p4 da ap p7 p8]
  obtain fs' where rest: "move_children (MoveFile n) fa s t names = Some (Inr fs')"
    and carr: "\<forall>y \<in> set names. carried fa fs' (s @ os_sep @ y) (t @ os_sep @ y)"
    and untr: "\<forall>p. (\<forall>y \<in> set names. \<forall>xs. reached fa (s @ os_sep @ y) xs \<longrightarrow>
                  p \<noteq> (s @ os_sep @ y) @ rel_path xs \<and> p \<noteq> (t @ os_sep @ y) @ rel_path xs)
              \<longrightarrow> map_of fs' p = map_of fa p"
    and d': "distinct (map fst fs')"
    by blast
  have whole: "move_children (MoveFile n) fs s t (x # names) = Some (Inr fs')"
    using run rest by simp
  have keep_s: "\<And>ys. map_of fs' (?sx @ rel_path ys) = map_of fa (?sx @ rel_path ys)"
  proof -
    fix ys
    have "\<forall>y \<in> set names. \<forall>xs. reached fa (s @ os_sep @ y) xs \<longrightarrow>
            ?sx @ rel_path ys \<noteq> (s @ os_sep @ y) @ rel_path xs
            \<and> ?sx @ rel_path ys \<noteq> (t @ os_sep @ y) @ rel_path xs"
      using ss st[of x] apart_child[OF ap, of x] unfolding apart_def by metis
    with untr show "map_of fs' (?sx @ rel_path ys) = map_of fa (?sx @ rel_path ys)" by blast
  qed
  have keep_t: "\<And>ys. map_of fs' (?tx @ rel_path ys) = map_of fa (?tx @ rel_path ys)"
  proof -
    fix ys
    have "\<forall>y \<in> set names. \<forall>xs. reached fa (s @ os_sep @ y) xs \<longrightarrow>
            ?tx @ rel_path ys \<noteq> (s @ os_sep @ y) @ rel_path xs
            \<and> ?tx @ rel_path ys \<noteq> (t @ os_sep @ y) @ rel_path xs"
      using tt st unfolding apart_def by metis
    with untr show "map_of fs' (?tx @ rel_path ys) = map_of fa (?tx @ rel_path ys)" by blast
  qed
  have c1: "carried fs fs' ?sx ?tx" using car keep_s keep_t by (rule carried_later)
  have c2: "\<forall>y \<in> set names. carried fs fs' (s @ os_sep @ y) (t @ os_sep @ y)"
  proof
    fix y assume y: "y \<in> set names"
    have "carried fa fs' (s @ os_sep @ y) (t @ os_sep @ y)
          = carried fs fs' (s @ os_sep @ y) (t @ os_sep @ y)"
      by (rule carried_cong) (rule as[OF y])
    with carr y show "carried fs fs' (s @ os_sep @ y) (t @ os_sep @ y)" by simp
  qed
  have fr: "\<forall>p. (\<forall>y \<in> set (x # names). \<forall>xs. reached fs (s @ os_sep @ y) xs \<longrightarrow>
                  p \<noteq> (s @ os_sep @ y) @ rel_path xs \<and> p \<noteq> (t @ os_sep @ y) @ rel_path xs)
              \<longrightarrow> map_of fs' p = map_of fs p"
  proof (intro allI impI)
    fix p
    assume out: "\<forall>y \<in> set (x # names). \<forall>xs. reached fs (s @ os_sep @ y) xs \<longrightarrow>
                  p \<noteq> (s @ os_sep @ y) @ rel_path xs \<and> p \<noteq> (t @ os_sep @ y) @ rel_path xs"
    then have "\<forall>xs. reached fs ?sx xs \<longrightarrow> p \<noteq> ?sx @ rel_path xs \<and> p \<noteq> ?tx @ rel_path xs"
      by simp
    with unt have a: "map_of fa p = map_of fs p" unfolding untouched_def by blast
    have "\<forall>y \<in> set names. \<forall>xs. reached fa (s @ os_sep @ y) xs \<longrightarrow>
                  p \<noteq> (s @ os_sep @ y) @ rel_path xs \<and> p \<noteq> (t @ os_sep @ y) @ rel_path xs"
    proof (intro ballI allI impI)
      fix y xs assume y: "y \<in> set names" and r: "reached fa (s @ os_sep @ y) xs"
      have "reached fa (s @ os_sep @ y) xs = reached fs (s @ os_sep @ y) xs"
        by (rule same_tree(2)) (rule as[OF y])
      with r have "reached fs (s @ os_sep @ y) xs" by simp
      with out y show "p \<noteq> (s @ os_sep @ y) @ rel_path xs \<and> p \<noteq> (t @ os_sep @ y) @ rel_path xs"
        by simp
    qed
    with untr have "map_of fs' p = map_of fa p" by blast
    with a show "map_of fs' p = map_of fs p" by simp
  qed
  from whole c1 c2 fr d' show ?case by simp
qed

lemma reached_child:
  "path_isdir fs s \<Longrightarrow> x \<noteq> [] \<Longrightarrow> sep_char \<notin> set x \<Longrightarrow>
   reached fs (s @ os_sep @ x) xs = reached fs s (x # xs)"
  by (simp add: reached_def)

lemma MoveFile_moved:
  "movable n fs s t \<Longrightarrow> \<exists>fs'. MoveFile n fs s t = Some (Inr fs') \<and> moved fs fs' s t"
proof (induction n arbitrary: fs s t)
  case 0
  then have "reached fs s []" and "shallow 0 fs s" by (simp_all add: movable_def reached_def)
  then show ?case unfolding shallow_def by blast
next
  case (Suc n)
  from Suc.prems have ex: "path_exists fs s" and dist: "distinct (map fst fs)"
    and ap: "apart s t" and tgt: "path_exists fs t \<or> parent_ok fs t"
    and fit: "fits fs s t" and sh: "shallow (Suc n) fs s"
    by (simp_all add: movable_def)
  have top: "reached fs s []" using ex by (simp add: reached_def)
  show ?case
  proof (cases "path_isdir fs s")
    case False
    from ex obtain e where e: "map_of fs s = Some e" by (auto simp: path_exists_def)
    with False obtain c where c: "map_of fs s = Some (File c)"
      by (cases e) (simp_all add: path_isdir_def)
    have "free_for fs (File c) (t @ rel_path [])"
      using fit c unfolding fits_def by (metis append_Nil2 chain.simps(1) rel_path.simps(1))
    then have free: "\<not> path_exists fs t" by (simp add: free_for_def)
    with tgt have par: "parent_ok fs t" by simp
    from move_plain_file[OF c dist free par] obtain fs' where
      mv: "move_file fs s t = Some (Inr fs')"
      and look: "\<And>p. map_of fs' p = (if p = t then Some (File c) else if p = s then None
                                       else map_of fs p)"
      and d': "distinct (map fst fs')" by blast
    have run: "MoveFile (Suc n) fs s t = Some (Inr fs')" using False mv by simp
    have st: "s \<noteq> t" using ap unfolding apart_def by (metis append_Nil2 rel_path.simps(1))
    have car: "carried fs fs' s t"
      unfolding carried_def
    proof (intro allI impI)
      fix xs assume ch: "chain fs s xs"
      have "xs = []" using ch False by (cases xs) simp_all
      then show "(\<forall>c. map_of fs (s @ rel_path xs) = Some (File c) \<longrightarrow>
               map_of fs' (t @ rel_path xs) = Some (File c) \<and> map_of fs' (s @ rel_path xs) = None)
        \<and> (path_isdir fs (s @ rel_path xs) \<longrightarrow>
               path_isdir fs' (t @ rel_path xs) \<and> path_isdir fs' (s @ rel_path xs))"
        using c False st by (simp add: look)
    qed
    have unt: "untouched fs fs' s t"
      unfolding untouched_def
    proof (intro allI impI)
      fix p assume "\<forall>xs. reached fs s xs \<longrightarrow> p \<noteq> s @ rel_path xs \<and> p \<noteq> t @ rel_path xs"
      with top have "p \<noteq> s @ rel_path [] \<and> p \<noteq> t @ rel_path []" by blast
      then show "map_of fs' p = map_of fs p" by (simp add: look)
    qed
    from run car unt d' show ?thesis unfolding moved_def by blast
  next
    case True
    have sd: "map_of fs s = Some Dir" using True by (simp add: path_isdir_def)
    have "free_for fs Dir (t @ rel_path [])"
      using fit sd unfolding fits_def by (metis append_Nil2 chain.simps(1) rel_path.simps(1))
    then have ft: "path_exists fs t \<longrightarrow> path_isdir fs t" by (simp add: free_for_def)
    obtain fs1 where
      mk: "(if \<not> path_exists fs t then os_mkdir fs t else Inr fs) = Inr fs1"
      and look1: "\<And>p. map_of fs1 p = (if p = t then Some Dir else map_of fs p)"
      and d1: "distinct (map fst fs1)"
    proof (cases "path_exists fs t")
      case True
      with ft have "map_of fs t = Some Dir" by (simp add: path_isdir_def)
      then show ?thesis using that[of fs] True dist by simp
    next
      case False
      with tgt have "parent_ok fs t" by simp
      with False have m: "os_mkdir fs t = Inr (fs @ [(t, Dir)])" by (simp add: os_mkdir_def)
      have "t \<notin> set (map fst fs)" using False by (simp add: path_exists_iff)
      with dist have "distinct (map fst (fs @ [(t, Dir)]))" by simp
      then show ?thesis using that[of "fs @ [(t, Dir)]"] False m os_mkdir_lookup[OF m] by simp
    qed
    have same_s: "\<And>ys. map_of fs1 (s @ rel_path ys) = map_of fs (s @ rel_path ys)"
    proof -
      fix ys
      have "s @ rel_path ys \<noteq> t" using ap unfolding apart_def
        by (metis append_Nil2 rel_path.simps(1))
      then show "map_of fs1 (s @ rel_path ys) = map_of fs (s @ rel_path ys)" by (simp add: look1)
    qed
    have same_sc: "\<And>x ys. map_of fs1 ((s @ os_sep @ x) @ rel_path ys)
                          = map_of fs ((s @ os_sep @ x) @ rel_path ys)"
      using same_s[of "_ # _"] by simp
    have same_tc: "\<And>x ys. map_of fs1 ((t @ os_sep @ x) @ rel_path ys)
                          = map_of fs ((t @ os_sep @ x) @ rel_path ys)"
      by (simp add: look1 os_sep_def)
    have dir1s: "path_isdir fs1 s" using same_s[of "[]"] True by (simp add: path_isdir_def)
    have dir1t: "path_isdir fs1 t" by (simp add: path_isdir_def look1)
    obtain names where ls: "os_listdir fs1 s = Inr names"
      using dir1s by (simp add: os_listdir_def)
    have mem: "\<And>x. x \<in> set names \<longleftrightarrow>
                x \<noteq> [] \<and> sep_char \<notin> set x \<and> path_exists fs1 (s @ os_sep @ x)"
      by (rule os_listdir_mem[OF ls])
    have dn: "distinct names" using ls d1 by (rule os_listdir_distinct)
    have q2: "\<forall>x \<in> set names. x \<noteq> [] \<and> sep_char \<notin> set x \<and> path_exists fs1 (s @ os_sep @ x)"
      using mem by blast
    have q7: "\<forall>x \<in> set names. fits fs1 (s @ os_sep @ x) (t @ os_sep @ x)"
    proof
      fix x assume x: "x \<in> set names"
      then have pr: "x \<noteq> []" "sep_char \<notin> set x" using mem by blast+
      have "fits fs (s @ os_sep @ x) (t @ os_sep @ x)"
        unfolding fits_def
      proof (intro allI impI)
        fix xs e
        assume h: "chain fs (s @ os_sep @ x) xs
                   \<and> map_of fs ((s @ os_sep @ x) @ rel_path xs) = Some e"
        then have "chain fs s (x # xs) \<and> map_of fs (s @ rel_path (x # xs)) = Some e"
          using True pr by simp
        with fit have "free_for fs e (t @ rel_path (x # xs))" unfolding fits_def by blast
        then show "free_for fs e ((t @ os_sep @ x) @ rel_path xs)" by simp
      qed
      moreover have "fits fs1 (s @ os_sep @ x) (t @ os_sep @ x)
                     = fits fs (s @ os_sep @ x) (t @ os_sep @ x)"
        by (rule fits_cong) (rule same_sc, rule same_tc)
      ultimately show "fits fs1 (s @ os_sep @ x) (t @ os_sep @ x)" by simp
    qed
    have q8: "\<forall>x \<in> set names. shallow n fs1 (s @ os_sep @ x)"
    proof
      fix x assume x: "x \<in> set names"
      then have pr: "x \<noteq> []" "sep_char \<notin> set x" using mem by blast+
      have "shallow n fs (s @ os_sep @ x)"
        unfolding shallow_def
      proof (intro allI impI)
        fix xs assume "reached fs (s @ os_sep @ x) xs"
        then have "reached fs s (x # xs)" using True pr by (simp add: reached_child)
        with sh have "length (x # xs) < Suc n" unfolding shallow_def by blast
        then show "length xs < n" by simp
      qed
      moreover have "shallow n fs1 (s @ os_sep @ x) = shallow n fs (s @ os_sep @ x)"
        by (rule shallow_cong) (rule same_sc)
      ultimately show "shallow n fs1 (s @ os_sep @ x)" by simp
    qed
    from move_children_moved[of n names fs1 s t, OF Suc.IH dn q2 dir1s dir1t d1 ap q7 q8]
    obtain fs' where rest: "move_children (MoveFile n) fs1 s t names = Some (Inr fs')"
      and carr: "\<forall>x \<in> set names. carried fs1 fs' (s @ os_sep @ x) (t @ os_sep @ x)"
      and untr: "\<forall>p. (\<forall>x \<in> set names. \<forall>xs. reached fs1 (s @ os_sep @ x) xs \<longrightarrow>
                  p \<noteq> (s @ os_sep @ x) @ rel_path xs \<and> p \<noteq> (t @ os_sep @ x) @ rel_path xs)
              \<longrightarrow> map_of fs' p = map_of fs1 p"
      and d': "distinct (map fst fs')"
      by blast
    have run: "MoveFile (Suc n) fs s t = Some (Inr fs')" using True mk ls rest by simp
    have keep_s: "path_isdir fs' s" using run True by (rule MoveFile_keeps_directories)
    have keep_t: "path_isdir fs' t"
      using move_children_keeps_directories[of "MoveFile n", OF MoveFile_keeps_directories rest dir1t] .
    have car: "carried fs fs' s t"
      unfolding carried_def
    proof (intro allI impI)
      fix xs assume ch: "chain fs s xs"
      show "(\<forall>c. map_of fs (s @ rel_path xs) = Some (File c) \<longrightarrow>
               map_of fs' (t @ rel_path xs) = Some (File c) \<and> map_of fs' (s @ rel_path xs) = None)
        \<and> (path_isdir fs (s @ rel_path xs) \<longrightarrow>
               path_isdir fs' (t @ rel_path xs) \<and> path_isdir fs' (s @ rel_path xs))"
      proof (cases xs)
        case Nil
        then show ?thesis using sd keep_s keep_t by simp
      next
        case (Cons x xs')
        with ch have pr: "x \<noteq> []" "sep_char \<notin> set x" and ch': "chain fs (s @ os_sep @ x) xs'"
          by simp_all
        show ?thesis
        proof (cases "path_exists fs (s @ os_sep @ x)")
          case True
          then have "path_exists fs1 (s @ os_sep @ x)"
            using same_sc[of x "[]"] by (simp add: path_exists_def)
          with pr have "x \<in> set names" using mem by blast
          with carr have "carried fs1 fs' (s @ os_sep @ x) (t @ os_sep @ x)" by blast
          moreover have "carried fs1 fs' (s @ os_sep @ x) (t @ os_sep @ x)
                         = carried fs fs' (s @ os_sep @ x) (t @ os_sep @ x)"
            by (rule carried_cong) (rule same_sc)
          ultimately have "carried fs fs' (s @ os_sep @ x) (t @ os_sep @ x)" by simp
          with ch' have
            "(\<forall>c. map_of fs ((s @ os_sep @ x) @ rel_path xs') = Some (File c) \<longrightarrow>
               map_of fs' ((t @ os_sep @ x) @ rel_path xs') = Some (File c)
               \<and> map_of fs' ((s @ os_sep @ x) @ rel_path xs') = None)
             \<and> (path_isdir fs ((s @ os_sep @ x) @ rel_path xs') \<longrightarrow>
               path_isdir fs' ((t @ os_sep @ x) @ rel_path xs')
               \<and> path_isdir fs' ((s @ os_sep @ x) @ rel_path xs'))"
            unfolding carried_def by blast
          then show ?thesis unfolding Cons by simp
        next
          case False
          then have none: "map_of fs (s @ os_sep @ x) = None" by (simp add: path_exists_def)
          then have "\<not> path_isdir fs (s @ os_sep @ x)" by (simp add: path_isdir_def)
          with ch' have "xs' = []" by (cases xs') simp_all
          then show ?thesis unfolding Cons using none by (simp add: path_isdir_def)
        qed
      qed
    qed
    have unt: "untouched fs fs' s t"
      unfolding untouched_def
    proof (intro allI impI)
      fix p assume out: "\<forall>xs. reached fs s xs \<longrightarrow> p \<noteq> s @ rel_path xs \<and> p \<noteq> t @ rel_path xs"
      with top have "p \<noteq> s @ rel_path [] \<and> p \<noteq> t @ rel_path []" by blast
      then have a: "map_of fs1 p = map_of fs p" by (simp add: look1)
      have "\<forall>x \<in> set names. \<forall>xs. reached fs1 (s @ os_sep @ x) xs \<longrightarrow>
                  p \<noteq> (s @ os_sep @ x) @ rel_path xs \<and> p \<noteq> (t @ os_sep @ x) @ rel_path xs"
      proof (intro ballI allI impI)
        fix x xs assume x: "x \<in> set names" and r: "reached fs1 (s @ os_sep @ x) xs"
        from x have pr: "x \<noteq> []" "sep_char \<notin> set x" using mem by blast+
        have "reached fs1 (s @ os_sep @ x) xs = reached fs (s @ os_sep @ x) xs"
          by (rule same_tree(2)) (rule same_sc)
        with r have "reached fs s (x # xs)" using True pr by (simp add: reached_child)
        with out have "p \<noteq> s @ rel_path (x # xs) \<and> p \<noteq> t @ rel_path (x # xs)" by blast
        then show "p \<noteq> (s @ os_sep @ x) @ rel_path xs \<and> p \<noteq> (t @ os_sep @ x) @ rel_path xs"
          by simp
      qed
      with untr have "map_of fs' p = map_of fs1 p" by blast
      with a show "map_of fs' p = map_of fs p" by simp
    qed
    from run car unt d' show ?thesis unfolding moved_def by blast
  qed
qed

lemma length_rel_path: "length xs \<le> length (rel_path xs)"
  by (induction xs) (simp_all add: os_sep_def)

lemma shallow_by_length:
  assumes "\<forall>p \<in> set (map fst fs). length p < m"
  shows "shallow m fs s"
  unfolding shallow_def
proof (intro allI impI)
  fix xs assume "reached fs s xs"
  then have "s @ rel_path xs \<in> set (map fst fs)" by (simp add: reached_def path_exists_iff)
  with assms have "length (s @ rel_path xs) < m" by blast
  with length_rel_path[of xs] show "length xs < m" by simp
qed


definition fs_tree :: filesystem where
  "fs_tree =
     [(''src'', Dir), (''src/a.txt'', File ''A''), (''src/sub'', Dir),
      (''src/sub/b.txt'', File ''B''), (''dst'', Dir)]"

text \<open>
  C4, as stated, fails: MoveFile contains no \<open>rmdir\<close>. After moving the directory
  \<open>src\<close> into \<open>dst\<close> the files are at their new places, and \<open>src\<close> and \<open>src/sub\<close>
  are still there, empty.
\<close>

theorem MoveFile_leaves_source_directory:
  "path_isdir fs_tree ''src''
   \<and> MoveFile 3 fs_tree ''src'' ''dst''
       = Some (Inr [(''src'', Dir), (''src/sub'', Dir), (''dst'', Dir),
                    (''dst/a.txt'', File ''A''), (''dst/sub'', Dir),
                    (''dst/sub/b.txt'', File ''B'')])
   \<and> path_exists [(''src'', Dir), (''src/sub'', Dir), (''dst'', Dir),
                    (''dst/a.txt'', File ''A''), (''dst/sub'', Dir),
                    (''dst/sub/b.txt'', File ''B'')] ''src''"
  by code_simp

text \<open>
  C4, amended. For a source that is a directory: a MoveFile call that returns has removed
  no directory, so the source directory (like every other directory) still exists after
  the call; emptied directories are left for CleanupFiles. The move itself is recursive.
  Let the file system hold one entry per path, let neither of source and destination be
  the other or lie below it, let the destination exist or lie in an existing directory,
  and let every entry that is reached from the source through directories (the source
  itself included) find its place under the destination free: nothing is there, or the
  entry is a directory and a directory is there. Then the call returns (with any
  recursion bound above the length of the longest path), every regular file reached at
  \<open>source/x1/.../xk\<close> is at \<open>destination/x1/.../xk\<close> with its content and gone from
  the source, every directory reached at \<open>source/x1/.../xk\<close> is a directory at
  \<open>destination/x1/.../xk\<close> and is still a directory at its old place, and every path
  that is neither a reached one nor the place of one under the destination keeps its
  entry.
\<close>

theorem MoveFile_directory_source:
  assumes src: "path_isdir fs source"
  shows "(MoveFile n fs source destination = Some (Inr fs') \<longrightarrow>
            path_isdir fs' source \<and> (\<forall>p. path_isdir fs p \<longrightarrow> path_isdir fs' p))
       \<and> (distinct (map fst fs) \<and> unrelated source destination
            \<and> (path_exists fs destination \<or> parent_ok fs destination)
            \<and> (\<forall>xs e. chain fs source xs \<and> map_of fs (source @ rel_path xs) = Some e \<longrightarrow>
                       free_for fs e (destination @ rel_path xs))
            \<and> (\<forall>p \<in> set (map fst fs). length p < m) \<longrightarrow>
          (\<exists>fs''. MoveFile m fs source destination = Some (Inr fs'')
             \<and> (\<forall>xs. chain fs source xs \<longrightarrow>
                   (\<forall>c. map_of fs (source @ rel_path xs) = Some (File c) \<longrightarrow>
                          map_of fs'' (destination @ rel_path xs) = Some (File c)
                          \<and> map_of fs'' (source @ rel_path xs) = None)
                   \<and> (path_isdir fs (source @ rel_path xs) \<longrightarrow>
                          path_isdir fs'' (destination @ rel_path xs)
                          \<and> path_isdir fs'' (source @ rel_path xs)))
             \<and> (\<forall>p. (\<forall>xs. chain fs source xs \<and> path_exists fs (source @ rel_path xs) \<longrightarrow>
                          p \<noteq> source @ rel_path xs \<and> p \<noteq> destination @ rel_path xs)
                     \<longrightarrow> map_of fs'' p = map_of fs p)))"
proof (intro conjI impI)
  assume r: "MoveFile n fs source destination = Some (Inr fs')"
  show "path_isdir fs' source" using r src by (rule MoveFile_keeps_directories)
  show "\<forall>p. path_isdir fs p \<longrightarrow> path_isdir fs' p"
    using r by (auto intro: MoveFile_keeps_directories)
next
  assume H: "distinct (map fst fs) \<and> unrelated source destination
            \<and> (path_exists fs destination \<or> parent_ok fs destination)
            \<and> (\<forall>xs e. chain fs source xs \<and> map_of fs (source @ rel_path xs) = Some e \<longrightarrow>
                       free_for fs e (destination @ rel_path xs))
            \<and> (\<forall>p \<in> set (map fst fs). length p < m)"
  have ex: "path_exists fs source" using src by (simp add: path_isdir_def path_exists_def)
  have ap: "apart source destination"
    using H unrelated_disjoint[of source destination] unfolding apart_def by blast
  have fit: "fits fs source destination" using H unfolding fits_def by blast
  have sh: "shallow m fs source" using H by (blast intro: shallow_by_length)
  have "movable m fs source destination"
    unfolding movable_def using ex ap fit sh H by blast
  from MoveFile_moved[OF this]
  obtain fs'' where run: "MoveFile m fs source destination = Some (Inr fs'')"
    and car: "carried fs fs'' source destination" and unt: "untouched fs fs'' source destination"
    unfolding moved_def by blast
  from car have c: "\<forall>xs. chain fs source xs \<longrightarrow>
                   (\<forall>c. map_of fs (source @ rel_path xs) = Some (File c) \<longrightarrow>
                          map_of fs'' (destination @ rel_path xs) = Some (File c)
                          \<and> map_of fs'' (source @ rel_path xs) = None)
                   \<and> (path_isdir fs (source @ rel_path xs) \<longrightarrow>
                          path_isdir fs'' (destination @ rel_path xs)
                          \<and> path_isdir fs'' (source @ rel_path xs))"
    unfolding carried_def .
  from unt have u: "\<forall>p. (\<forall>xs. chain fs source xs \<and> path_exists fs (source @ rel_path xs) \<longrightarrow>
                          p \<noteq> source @ rel_path xs \<and> p \<noteq> destination @ rel_path xs)
                     \<longrightarrow> map_of fs'' p = map_of fs p"
    unfolding untouched_def reached_def .
  from run c u show "\<exists>fs''. MoveFile m fs source destination = Some (Inr fs'')
             \<and> (\<forall>xs. chain fs source xs \<longrightarrow>
                   (\<forall>c. map_of fs (source @ rel_path xs) = Some (File c) \<longrightarrow>
                          map_of fs'' (destination @ rel_path xs) = Some (File c)
                          \<and> map_of fs'' (source @ rel_path xs) = None)
                   \<and> (path_isdir fs (source @ rel_path xs) \<longrightarrow>
                          path_isdir fs'' (destination @ rel_path xs)
                          \<and> path_isdir fs'' (source @ rel_path xs)))
             \<and> (\<forall>p. (\<forall>xs. chain fs source xs \<and> path_exists fs (source @ rel_path xs) \<longrightarrow>
                          p \<noteq> source @ rel_path xs \<and> p \<noteq> destination @ rel_path xs)
                     \<longrightarrow> map_of fs'' p = map_of fs p)"
    by blast
qed

definition fs_tree_moved :: filesystem where
  "fs_tree_moved =
     [(''src'', Dir), (''src/sub'', Dir), (''dst'', Dir), (''dst/a.txt'', File ''A''),
      (''dst/sub'', Dir), (''dst/sub/b.txt'', File ''B'')]"

text \<open>
  The tree \<open>fs_tree\<close>, with the file \<open>src/sub/b.txt\<close> two levels down, moved into the
  existing directory \<open>dst\<close>.
\<close>

theorem MoveFile_directory_source_witness:
  "path_isdir fs_tree ''src''
   \<and> MoveFile 3 fs_tree ''src'' ''dst'' = Some (Inr fs_tree_moved)
   \<and> path_isdir fs_tree_moved ''src''
   \<and> distinct (map fst fs_tree) \<and> unrelated ''src'' ''dst'' \<and> path_exists fs_tree ''dst''
   \<and> chain fs_tree ''src'' [''sub'', ''b.txt'']
   \<and> map_of fs_tree ''src/sub/b.txt'' = Some (File ''B'')
   \<and> (\<exists>fs2. MoveFile 14 fs_tree ''src'' ''dst'' = Some (Inr fs2)
         \<and> map_of fs2 ''dst/sub/b.txt'' = Some (File ''B'')
         \<and> map_of fs2 ''src/sub/b.txt'' = None
         \<and> path_isdir fs2 ''dst/sub'' \<and> path_isdir fs2 ''src/sub''
         \<and> map_of fs2 ''dst/a.txt'' = Some (File ''A'')
         \<and> map_of fs2 ''src/a.txt'' = None)"
proof -
  have src: "path_isdir fs_tree ''src''" by code_simp
  have ev: "MoveFile 3 fs_tree ''src'' ''dst'' = Some (Inr fs_tree_moved)" by code_simp
  have dist: "distinct (map fst fs_tree)" by code_simp
  have un: "unrelated ''src'' ''dst''" by code_simp
  have dst: "path_exists fs_tree ''dst''" by code_simp
  have ch2: "chain fs_tree ''src'' [''sub'', ''b.txt'']" by code_simp
  have ch1: "chain fs_tree ''src'' [''sub'']" by code_simp
  have cha: "chain fs_tree ''src'' [''a.txt'']" by code_simp
  have fb: "map_of fs_tree ''src/sub/b.txt'' = Some (File ''B'')" by code_simp
  have fa: "map_of fs_tree ''src/a.txt'' = Some (File ''A'')" by code_simp
  have ds: "path_isdir fs_tree ''src/sub''" by code_simp
  have fit: "\<forall>xs e. chain fs_tree ''src'' xs \<and> map_of fs_tree (''src'' @ rel_path xs) = Some e
               \<longrightarrow> free_for fs_tree e (''dst'' @ rel_path xs)"
  proof (intro allI impI)
    fix xs e
    assume h: "chain fs_tree ''src'' xs \<and> map_of fs_tree (''src'' @ rel_path xs) = Some e"
    show "free_for fs_tree e (''dst'' @ rel_path xs)"
    proof (cases xs)
      case Nil
      with h show ?thesis
        by (simp add: fs_tree_def free_for_def path_isdir_def)
    next
      case (Cons x r)
      then show ?thesis
        by (simp add: fs_tree_def free_for_def path_exists_def os_sep_def sep_char_def)
    qed
  qed
  have len: "\<forall>p \<in> set (map fst fs_tree). length p < 14" by (simp add: fs_tree_def)
  note inst = MoveFile_directory_source[OF src, where n = 3 and destination = "''dst''"
      and fs' = fs_tree_moved and m = 14]
  from inst ev have kept: "path_isdir fs_tree_moved ''src''" by blast
  from inst dist un dst fit len
  obtain fs2 where run: "MoveFile 14 fs_tree ''src'' ''dst'' = Some (Inr fs2)"
    and car: "\<forall>xs. chain fs_tree ''src'' xs \<longrightarrow>
                   (\<forall>c. map_of fs_tree (''src'' @ rel_path xs) = Some (File c) \<longrightarrow>
                          map_of fs2 (''dst'' @ rel_path xs) = Some (File c)
                          \<and> map_of fs2 (''src'' @ rel_path xs) = None)
                   \<and> (path_isdir fs_tree (''src'' @ rel_path xs) \<longrightarrow>
                          path_isdir fs2 (''dst'' @ rel_path xs)
                          \<and> path_isdir fs2 (''src'' @ rel_path xs))"
    by blast
  have r2: "''src'' @ rel_path [''sub'', ''b.txt''] = ''src/sub/b.txt''"
    "''dst'' @ rel_path [''sub'', ''b.txt''] = ''dst/sub/b.txt''"
    "''src'' @ rel_path [''sub''] = ''src/sub''" "''dst'' @ rel_path [''sub''] = ''dst/sub''"
    "''src'' @ rel_path [''a.txt''] = ''src/a.txt''" "''dst'' @ rel_path [''a.txt''] = ''dst/a.txt''"
    by (simp_all add: os_sep_def sep_char_def)
  from car ch2 fb have b: "map_of fs2 ''dst/sub/b.txt'' = Some (File ''B'')
                           \<and> map_of fs2 ''src/sub/b.txt'' = None"
    unfolding r2[symmetric] by blast
  from car ch1 ds have d: "path_isdir fs2 ''dst/sub'' \<and> path_isdir fs2 ''src/sub''"
    unfolding r2[symmetric] by blast
  from car cha fa have a: "map_of fs2 ''dst/a.txt'' = Some (File ''A'')
                           \<and> map_of fs2 ''src/a.txt'' = None"
    unfolding r2[symmetric] by blast
  from run a b d have "\<exists>fs2. MoveFile 14 fs_tree ''src'' ''dst'' = Some (Inr fs2)
         \<and> map_of fs2 ''dst/sub/b.txt'' = Some (File ''B'')
         \<and> map_of fs2 ''src/sub/b.txt'' = None
         \<and> path_isdir fs2 ''dst/sub'' \<and> path_isdir fs2 ''src/sub''
         \<and> map_of fs2 ''dst/a.txt'' = Some (File ''A'')
         \<and> map_of fs2 ''src/a.txt'' = None" by blast
  with src ev kept dist un dst ch2 fb show ?thesis by blast
qed

text \<open>
  Where a name is taken under the destination the child is renamed, and a destination
  inside the source is listed among the children of the source, so that the recursion
  does not end within the bound.
\<close>

definition fs_tree_taken :: filesystem where
  "fs_tree_taken =
     [(''src'', Dir), (''src/a.txt'', File ''A''), (''dst'', Dir), (''dst/a.txt'', File ''old'')]"

lemma MoveFile_child_name_taken:
  "MoveFile 3 fs_tree_taken ''src'' ''dst''
     = Some (Inr [(''src'', Dir), (''dst'', Dir), (''dst/a.txt'', File ''old''),
                  (''dst/a_(1).txt'', File ''A'')])"
  by code_simp

lemma MoveFile_into_own_subdirectory:
  "MoveFile 6 [(''a'', Dir), (''a/f'', File ''F'')] ''a'' ''a/b'' = None"
  by code_simp
section \<open>Files with the same basename moved into one directory\<close>

text \<open>Moving the files of a list, one after another, to the same destination.\<close>

fun move_each :: "nat \<Rightarrow> filesystem \<Rightarrow> string list \<Rightarrow> string \<Rightarrow> (exn + filesystem) option" where
  "move_each n fs [] destination = Some (Inr fs)"
| "move_each n fs (source # sources) destination =
     (case MoveFile n fs source destination of
        None \<Rightarrow> None
      | Some (Inl e) \<Rightarrow> Some (Inl e)
      | Some (Inr fs') \<Rightarrow> move_each n fs' sources destination)"

text \<open>The name of the \<open>i\<close>-th arrival at the target \<open>t\<close>.\<close>

definition arrival :: "string \<Rightarrow> nat \<Rightarrow> string" where
  "arrival t i = (if i = 0 then t else dup_name t i)"

lemma dup_name_neq: "dup_name t n \<noteq> t"
proof
  assume "dup_name t n = t"
  then have "length (dup_name t n) = length t" by simp
  moreover have "length (slice_to t (str_rfind t ''.'')) + length (slice_from t (str_rfind t ''.''))
        = length t"
    by (simp add: slice_to_def slice_from_def)
  ultimately show False by (simp add: dup_name_def)
qed

lemma arrival_inj: "arrival t i = arrival t j \<Longrightarrow> i = j"
  by (auto simp: arrival_def dup_name_neq dup_name_neq[symmetric] dest: dup_name_inj split: if_splits)

text \<open>One arrival: the \<open>i\<close>-th file with this basename reaches the directory.\<close>

lemma move_into_directory_step:
  assumes dir: "path_isdir fs D"
    and base: "sep_char \<notin> set base" and bn: "basename source = base"
    and src: "map_of fs source = Some (File c)"
    and occ: "\<forall>j < i. path_exists fs (arrival (D @ os_sep @ base) j)"
    and free: "\<not> path_exists fs (arrival (D @ os_sep @ base) i)"
    and par: "parent_ok fs (arrival (D @ os_sep @ base) i)"
  shows "MoveFile (Suc n) fs source D
         = Some (Inr (write_file (delete_path fs source) (arrival (D @ os_sep @ base) i) c))"
proof -
  let ?t = "D @ os_sep @ base"
  have res: "resolve_destination fs source D = arrival ?t i"
  proof (cases "i = 0")
    case True
    then show ?thesis using dir bn free by (simp add: resolve_destination_def arrival_def)
  next
    case False
    have t_ex: "path_exists fs ?t" using occ False by (auto simp: arrival_def)
    have "find_dup fs ?t 1 = i"
    proof (rule find_dup_eq)
      show "1 \<le> i" using False by simp
      show "\<not> path_exists fs (dup_name ?t i)" using free False by (simp add: arrival_def)
      show "\<And>k. 1 \<le> k \<Longrightarrow> k < i \<Longrightarrow> path_exists fs (dup_name ?t k)"
        using occ by (auto simp: arrival_def)
    qed
    then show ?thesis using dir bn t_ex False by (simp add: resolve_destination_def arrival_def)
  qed
  have nodir: "\<not> path_isdir fs source" using src by (simp add: path_isdir_def)
  have par': "parent_ok fs (resolve_destination fs source D)" using par res by simp
  show ?thesis using nodir move_file_result[OF src par'] res by simp
qed

lemma arrival_with_extension:
  assumes "CHR ''.'' \<notin> set ext"
  shows "arrival (D @ os_sep @ stem @ ''.'' @ ext) i
         = D @ os_sep @ (if i = 0 then stem @ ''.'' @ ext
                         else stem @ ''_('' @ str_nat i @ '')'' @ ''.'' @ ext)"
proof -
  have "dup_name ((D @ os_sep @ stem) @ ''.'' @ ext) i
        = (D @ os_sep @ stem) @ ''_('' @ str_nat i @ '')'' @ ''.'' @ ext"
    using assms by (rule dup_name_dot)
  then show ?thesis by (simp add: arrival_def)
qed

lemma parent_ok_arrival:
  assumes ext: "CHR ''.'' \<notin> set ext" and s1: "sep_char \<notin> set stem" and s2: "sep_char \<notin> set ext"
  shows "parent_ok fs (arrival (D @ os_sep @ stem @ ''.'' @ ext) i) = path_isdir fs D"
proof -
  have "sep_char \<notin> set (if i = 0 then stem @ ''.'' @ ext
                         else stem @ ''_('' @ str_nat i @ '')'' @ ''.'' @ ext)"
    using s1 s2 sep_notin_str_nat[of i] by (simp add: sep_char_def)
  then show ?thesis unfolding arrival_with_extension[OF ext] by (rule parent_ok_join)
qed

lemma move_each_arrivals:
  assumes ext: "CHR ''.'' \<notin> set ext" and s1: "sep_char \<notin> set stem" and s2: "sep_char \<notin> set ext"
    and t: "t = D @ os_sep @ stem @ ''.'' @ ext"
  shows "path_isdir fs D \<Longrightarrow>
     list_all2 (\<lambda>s c. map_of fs s = Some (File c)) sources contents \<Longrightarrow>
     \<forall>s \<in> set sources. basename s = stem @ ''.'' @ ext \<Longrightarrow>
     distinct sources \<Longrightarrow>
     \<forall>s \<in> set sources. \<forall>j. s \<noteq> arrival t j \<Longrightarrow>
     \<forall>j < i. path_exists fs (arrival t j) \<Longrightarrow>
     \<forall>k \<ge> i. \<not> path_exists fs (arrival t k) \<Longrightarrow>
     \<exists>fs'. move_each (Suc n) fs sources D = Some (Inr fs')
        \<and> path_isdir fs' D
        \<and> (\<forall>j < length sources. map_of fs' (arrival t (i + j)) = Some (File (contents ! j)))
        \<and> (\<forall>s \<in> set sources. map_of fs' s = None)
        \<and> (\<forall>p. p \<notin> set sources \<and> (\<forall>j < length sources. p \<noteq> arrival t (i + j))
               \<longrightarrow> map_of fs' p = map_of fs p)"
proof (induction sources arbitrary: fs i contents)
  case Nil
  then show ?case by simp
next
  case (Cons s rest)
  from Cons.prems(2) obtain c cs where contents: "contents = c # cs"
    and src: "map_of fs s = Some (File c)"
    and rest: "list_all2 (\<lambda>s c. map_of fs s = Some (File c)) rest cs"
    by (auto simp: list_all2_Cons1)
  let ?new = "arrival t i"
  let ?fs1 = "write_file (delete_path fs s) ?new c"
  have base: "sep_char \<notin> set (stem @ ''.'' @ ext)" using s1 s2 by (simp add: sep_char_def)
  have bn: "basename s = stem @ ''.'' @ ext" using Cons.prems(3) by simp
  have free: "\<not> path_exists fs ?new" using Cons.prems(7) by simp
  have par: "parent_ok fs (arrival (D @ os_sep @ stem @ ''.'' @ ext) i)"
    using parent_ok_arrival[OF ext s1 s2] Cons.prems(1) by simp
  have step: "MoveFile (Suc n) fs s D = Some (Inr ?fs1)"
    using move_into_directory_step[OF Cons.prems(1) base bn src _ _ par, of n]
      Cons.prems(6) free unfolding t by simp
  have new_ne_s: "?new \<noteq> s" using Cons.prems(5) by auto
  have lookup1: "\<And>q. map_of ?fs1 q = (if q = ?new then Some (File c)
                   else if q = s then None else map_of fs q)"
    by (simp add: map_of_write_file map_of_delete_path)
  have dir1: "path_isdir ?fs1 D"
    using Cons.prems(1) free src by (auto simp: path_isdir_def path_exists_def lookup1)
  have rest1: "list_all2 (\<lambda>s c. map_of ?fs1 s = Some (File c)) rest cs"
  proof (rule list.rel_mono_strong[OF rest])
    fix x y assume "x \<in> set rest" and "map_of fs x = Some (File y)"
    moreover have "x \<noteq> s" using \<open>x \<in> set rest\<close> Cons.prems(4) by auto
    moreover have "x \<noteq> ?new" using \<open>x \<in> set rest\<close> Cons.prems(5) by auto
    ultimately show "map_of ?fs1 x = Some (File y)" by (simp add: lookup1)
  qed
  have occ1: "\<forall>j < Suc i. path_exists ?fs1 (arrival t j)"
  proof (intro allI impI)
    fix j assume "j < Suc i"
    show "path_exists ?fs1 (arrival t j)"
    proof (cases "j = i")
      case True
      then show ?thesis by (simp add: path_exists_def lookup1)
    next
      case False
      then have "path_exists fs (arrival t j)" using \<open>j < Suc i\<close> Cons.prems(6) by simp
      moreover have "arrival t j \<noteq> s" using Cons.prems(5) by auto
      ultimately show ?thesis by (simp add: path_exists_def lookup1)
    qed
  qed
  have free1: "\<forall>k \<ge> Suc i. \<not> path_exists ?fs1 (arrival t k)"
  proof (intro allI impI)
    fix k assume k: "Suc i \<le> k"
    then have "arrival t k \<noteq> ?new" by (auto dest: arrival_inj)
    moreover have "\<not> path_exists fs (arrival t k)" using k Cons.prems(7) by simp
    ultimately show "\<not> path_exists ?fs1 (arrival t k)" by (simp add: path_exists_def lookup1)
  qed
  have bn1: "\<forall>s \<in> set rest. basename s = stem @ ''.'' @ ext" using Cons.prems(3) by simp
  have d1: "distinct rest" using Cons.prems(4) by simp
  have na1: "\<forall>s \<in> set rest. \<forall>j. s \<noteq> arrival t j" using Cons.prems(5) by simp
  from Cons.IH[OF dir1 rest1 bn1 d1 na1 occ1 free1]
  obtain fs' where run: "move_each (Suc n) ?fs1 rest D = Some (Inr fs')"
    and dir': "path_isdir fs' D"
    and arr: "\<forall>j < length rest. map_of fs' (arrival t (Suc i + j)) = Some (File (cs ! j))"
    and gone: "\<forall>s \<in> set rest. map_of fs' s = None"
    and frame: "\<forall>p. p \<notin> set rest \<and> (\<forall>j < length rest. p \<noteq> arrival t (Suc i + j))
                  \<longrightarrow> map_of fs' p = map_of ?fs1 p"
    by blast
  have whole: "move_each (Suc n) fs (s # rest) D = Some (Inr fs')"
    using step run by simp
  have new_fs': "map_of fs' ?new = Some (File c)"
  proof -
    have "?new \<notin> set rest" using Cons.prems(5) by auto
    moreover have "\<forall>j < length rest. ?new \<noteq> arrival t (Suc i + j)" by (auto dest: arrival_inj)
    ultimately have "map_of fs' ?new = map_of ?fs1 ?new" using frame by blast
    then show ?thesis by (simp add: lookup1)
  qed
  have s_fs': "map_of fs' s = None"
  proof -
    have "s \<notin> set rest" using Cons.prems(4) by simp
    moreover have "\<forall>j < length rest. s \<noteq> arrival t (Suc i + j)" using Cons.prems(5) by simp
    ultimately have "map_of fs' s = map_of ?fs1 s" using frame by blast
    then show ?thesis using new_ne_s by (simp add: lookup1)
  qed
  have arr': "\<forall>j < length (s # rest). map_of fs' (arrival t (i + j)) = Some (File (contents ! j))"
  proof (intro allI impI)
    fix j assume j: "j < length (s # rest)"
    show "map_of fs' (arrival t (i + j)) = Some (File (contents ! j))"
    proof (cases j)
      case 0
      then show ?thesis using new_fs' contents by simp
    next
      case (Suc j')
      then have "j' < length rest" using j by simp
      with arr have "map_of fs' (arrival t (Suc i + j')) = Some (File (cs ! j'))" by blast
      then show ?thesis using Suc contents by simp
    qed
  qed
  have gone': "\<forall>x \<in> set (s # rest). map_of fs' x = None" using s_fs' gone by simp
  have frame': "\<forall>p. p \<notin> set (s # rest) \<and> (\<forall>j < length (s # rest). p \<noteq> arrival t (i + j))
                  \<longrightarrow> map_of fs' p = map_of fs p"
  proof (intro allI impI)
    fix p assume p: "p \<notin> set (s # rest) \<and> (\<forall>j < length (s # rest). p \<noteq> arrival t (i + j))"
    then have a: "p \<notin> set rest" and b: "p \<noteq> s" by simp_all
    from p have c0: "p \<noteq> arrival t (i + 0)" by (metis length_greater_0_conv list.distinct(1))
    have "\<forall>j < length rest. p \<noteq> arrival t (Suc i + j)"
    proof (intro allI impI)
      fix j assume "j < length rest"
      then have "Suc j < length (s # rest)" by simp
      with p have "p \<noteq> arrival t (i + Suc j)" by blast
      then show "p \<noteq> arrival t (Suc i + j)" by simp
    qed
    with a frame have "map_of fs' p = map_of ?fs1 p" by blast
    then show "map_of fs' p = map_of fs p" using b c0 by (simp add: lookup1)
  qed
  from whole dir' arr' gone' frame' show ?case by blast
qed

text \<open>
  The names the spec gives the arrivals: the first keeps the name, the \<open>j\<close>-th later one
  gets \<open>_(j)\<close> before the extension.
\<close>

definition numbered :: "string \<Rightarrow> string \<Rightarrow> nat \<Rightarrow> string" where
  "numbered stem ext j =
     (if j = 0 then stem @ ''.'' @ ext else stem @ ''_('' @ str_nat j @ '')'' @ ''.'' @ ext)"

text \<open>
  C5. Let \<open>N\<close> distinct regular files share the basename \<open>stem.ext\<close>, and let the
  directory \<open>D\<close> hold neither that name nor any of its numbered variants. Moving the
  files into \<open>D\<close> one after another returns; afterwards \<open>D\<close> holds the first under
  \<open>stem.ext\<close> and the \<open>j\<close>-th later arrival under \<open>stem_(j).ext\<close>, each with its own
  content; these \<open>N\<close> names are pairwise distinct; the sources are gone; and every other
  path keeps its entry, so nothing is overwritten.
\<close>

theorem colliding_basenames_are_numbered:
  assumes dir: "path_isdir fs D"
    and ext: "CHR ''.'' \<notin> set ext" and s1: "sep_char \<notin> set stem" and s2: "sep_char \<notin> set ext"
    and files: "list_all2 (\<lambda>s c. map_of fs s = Some (File c)) sources contents"
    and bns: "\<forall>s \<in> set sources. basename s = stem @ ''.'' @ ext"
    and dist: "distinct sources"
    and free: "\<forall>k. \<not> path_exists fs (D @ os_sep @ numbered stem ext k)"
  shows "\<exists>fs'. move_each (Suc n) fs sources D = Some (Inr fs')
           \<and> (\<forall>j < length sources.
                 map_of fs' (D @ os_sep @ numbered stem ext j) = Some (File (contents ! j)))
           \<and> (\<forall>j < length sources. \<forall>k < length sources.
                 numbered stem ext j = numbered stem ext k \<longrightarrow> j = k)
           \<and> (\<forall>s \<in> set sources. \<not> path_exists fs' s)
           \<and> (\<forall>p. p \<notin> set sources \<and> (\<forall>j < length sources. p \<noteq> D @ os_sep @ numbered stem ext j)
                 \<longrightarrow> map_of fs' p = map_of fs p)"
proof -
  let ?t = "D @ os_sep @ stem @ ''.'' @ ext"
  have arr: "\<And>j. arrival ?t j = D @ os_sep @ numbered stem ext j"
    using arrival_with_extension[OF ext] by (simp add: numbered_def)
  have na: "\<forall>s \<in> set sources. \<forall>j. s \<noteq> arrival ?t j"
  proof (intro ballI allI)
    fix s j assume "s \<in> set sources"
    then obtain c where "map_of fs s = Some (File c)"
      using files by (auto simp: in_set_conv_nth list_all2_conv_all_nth)
    then have "path_exists fs s" by (simp add: path_exists_def)
    with free show "s \<noteq> arrival ?t j" unfolding arr by auto
  qed
  have occ: "\<forall>j < (0::nat). path_exists fs (arrival ?t j)" by simp
  have fr: "\<forall>k \<ge> (0::nat). \<not> path_exists fs (arrival ?t k)" unfolding arr using free by blast
  from move_each_arrivals[OF ext s1 s2 refl dir files bns dist na occ fr, of n]
  obtain fs' where run: "move_each (Suc n) fs sources D = Some (Inr fs')"
    and a: "\<forall>j < length sources. map_of fs' (arrival ?t (0 + j)) = Some (File (contents ! j))"
    and g: "\<forall>s \<in> set sources. map_of fs' s = None"
    and f: "\<forall>p. p \<notin> set sources \<and> (\<forall>j < length sources. p \<noteq> arrival ?t (0 + j))
               \<longrightarrow> map_of fs' p = map_of fs p"
    by blast
  have a': "\<forall>j < length sources.
      map_of fs' (D @ os_sep @ numbered stem ext j) = Some (File (contents ! j))"
    using a unfolding arr by simp
  have i': "\<forall>j < length sources. \<forall>k < length sources.
      numbered stem ext j = numbered stem ext k \<longrightarrow> j = k"
  proof (intro allI impI)
    fix j k assume "numbered stem ext j = numbered stem ext k"
    then have "arrival ?t j = arrival ?t k" unfolding arr by simp
    then show "j = k" by (rule arrival_inj)
  qed
  have g': "\<forall>s \<in> set sources. \<not> path_exists fs' s" using g by (simp add: path_exists_def)
  have f': "\<forall>p. p \<notin> set sources \<and> (\<forall>j < length sources. p \<noteq> D @ os_sep @ numbered stem ext j)
               \<longrightarrow> map_of fs' p = map_of fs p"
    using f unfolding arr by simp
  from run a' i' g' f' show ?thesis by blast
qed

definition fs_three :: filesystem where
  "fs_three =
     [(''in1'', Dir), (''in1/crash.txt'', File ''one''),
      (''in2'', Dir), (''in2/crash.txt'', File ''two''),
      (''in3'', Dir), (''in3/crash.txt'', File ''three''),
      (''X'', Dir), (''X/Y'', Dir)]"

lemma fs_three_free: "\<not> path_exists fs_three (''X/Y'' @ os_sep @ numbered ''crash'' ''txt'' k)"
  by (simp add: path_exists_def fs_three_def numbered_def os_sep_def sep_char_def)

text \<open>
  Three files named \<open>crash.txt\<close> moved into \<open>X/Y\<close> arrive as \<open>crash.txt\<close>,
  \<open>crash_(1).txt\<close> and \<open>crash_(2).txt\<close>.
\<close>

theorem colliding_basenames_are_numbered_witness:
  "path_isdir fs_three ''X/Y''
   \<and> map (basename) [''in1/crash.txt'', ''in2/crash.txt'', ''in3/crash.txt'']
       = [''crash.txt'', ''crash.txt'', ''crash.txt'']
   \<and> (\<exists>fs'. move_each (Suc 0) fs_three [''in1/crash.txt'', ''in2/crash.txt'', ''in3/crash.txt''] ''X/Y''
               = Some (Inr fs')
            \<and> map_of fs' ''X/Y/crash.txt'' = Some (File ''one'')
            \<and> map_of fs' ''X/Y/crash_(1).txt'' = Some (File ''two'')
            \<and> map_of fs' ''X/Y/crash_(2).txt'' = Some (File ''three''))
   \<and> move_each (Suc 0) fs_three [''in1/crash.txt'', ''in2/crash.txt'', ''in3/crash.txt''] ''X/Y''
       = Some (Inr [(''in1'', Dir), (''in2'', Dir), (''in3'', Dir), (''X'', Dir), (''X/Y'', Dir),
                    (''X/Y/crash.txt'', File ''one''), (''X/Y/crash_(1).txt'', File ''two''),
                    (''X/Y/crash_(2).txt'', File ''three'')])"
proof -
  let ?srcs = "[''in1/crash.txt'', ''in2/crash.txt'', ''in3/crash.txt'']"
  have dir: "path_isdir fs_three ''X/Y''" by code_simp
  have ext: "CHR ''.'' \<notin> set ''txt''" by simp
  have s1: "sep_char \<notin> set ''crash''" by (simp add: sep_char_def)
  have s2: "sep_char \<notin> set ''txt''" by (simp add: sep_char_def)
  have files: "list_all2 (\<lambda>s c. map_of fs_three s = Some (File c)) ?srcs [''one'', ''two'', ''three'']"
    by (simp add: fs_three_def)
  have bn: "map (basename) ?srcs = [''crash.txt'', ''crash.txt'', ''crash.txt'']" by code_simp
  then have bns: "\<forall>s \<in> set ?srcs. basename s = ''crash'' @ ''.'' @ ''txt''" by simp
  have dist: "distinct ?srcs" by simp
  have free: "\<forall>k. \<not> path_exists fs_three (''X/Y'' @ os_sep @ numbered ''crash'' ''txt'' k)"
    using fs_three_free by blast
  have ev: "move_each (Suc 0) fs_three ?srcs ''X/Y''
       = Some (Inr [(''in1'', Dir), (''in2'', Dir), (''in3'', Dir), (''X'', Dir), (''X/Y'', Dir),
                    (''X/Y/crash.txt'', File ''one''), (''X/Y/crash_(1).txt'', File ''two''),
                    (''X/Y/crash_(2).txt'', File ''three'')])" by code_simp
  have names: "''X/Y'' @ os_sep @ numbered ''crash'' ''txt'' 0 = ''X/Y/crash.txt''"
    "''X/Y'' @ os_sep @ numbered ''crash'' ''txt'' 1 = ''X/Y/crash_(1).txt''"
    "''X/Y'' @ os_sep @ numbered ''crash'' ''txt'' 2 = ''X/Y/crash_(2).txt''"
    by code_simp+
  from colliding_basenames_are_numbered[OF dir ext s1 s2 files bns dist free, of 0]
  obtain fs' where run: "move_each (Suc 0) fs_three ?srcs ''X/Y'' = Some (Inr fs')"
    and a: "\<forall>j < length ?srcs. map_of fs' (''X/Y'' @ os_sep @ numbered ''crash'' ''txt'' j)
              = Some (File ([''one'', ''two'', ''three''] ! j))"
    by blast
  from a have "map_of fs' (''X/Y'' @ os_sep @ numbered ''crash'' ''txt'' 0) = Some (File ''one'')"
    "map_of fs' (''X/Y'' @ os_sep @ numbered ''crash'' ''txt'' 1) = Some (File ''two'')"
    "map_of fs' (''X/Y'' @ os_sep @ numbered ''crash'' ''txt'' 2) = Some (File ''three'')"
    by force+
  then have "map_of fs' ''X/Y/crash.txt'' = Some (File ''one'')"
    "map_of fs' ''X/Y/crash_(1).txt'' = Some (File ''two'')"
    "map_of fs' ''X/Y/crash_(2).txt'' = Some (File ''three'')"
    by (simp_all only: names)
  with run have "\<exists>fs'. move_each (Suc 0) fs_three ?srcs ''X/Y'' = Some (Inr fs')
            \<and> map_of fs' ''X/Y/crash.txt'' = Some (File ''one'')
            \<and> map_of fs' ''X/Y/crash_(1).txt'' = Some (File ''two'')
            \<and> map_of fs' ''X/Y/crash_(2).txt'' = Some (File ''three'')" by blast
  with dir bn ev show ?thesis by blast
qed

section \<open>Properties of the severity merge\<close>

lemma labels_cases:
  "x \<in> labels \<Longrightarrow>
   x = ''EXPLOITABLE'' \<or> x = ''PROBABLY EXPLOITABLE'' \<or> x = ''UNKNOWN''
     \<or> x = ''PROBABLY NOT EXPLOITABLE''"
  by (simp add: labels_def)

lemma rank_values:
  "rank ''EXPLOITABLE'' = 3" "rank ''PROBABLY EXPLOITABLE'' = 2"
  "rank ''UNKNOWN'' = 1" "rank ''PROBABLY NOT EXPLOITABLE'' = 0"
  by (simp_all add: rank_def)

lemma rank_inj: "a \<in> labels \<Longrightarrow> b \<in> labels \<Longrightarrow> rank a = rank b \<Longrightarrow> a = b"
  by (drule labels_cases, drule labels_cases) (elim disjE; simp add: rank_values)

lemma merge_loop_step:
  "best \<in> labels \<Longrightarrow> e \<in> labels \<Longrightarrow>
   merge_loop best (e # es) =
     (if rank best = 3 then best
      else merge_loop (if rank best \<le> rank e then e else best) es)"
  by (drule labels_cases, drule labels_cases) (elim disjE; simp add: rank_values)

lemma labels_rank_le: "x \<in> labels \<Longrightarrow> rank x \<le> 3"
  by (drule labels_cases) (elim disjE; simp add: rank_values)

lemma merge_loop_mem: "merge_loop best exps \<in> insert best (set exps)"
  by (induction exps arbitrary: best) auto

lemma merge_loop_rank:
  "best \<in> labels \<Longrightarrow> set exps \<subseteq> labels \<Longrightarrow> x \<in> insert best (set exps) \<Longrightarrow>
   rank x \<le> rank (merge_loop best exps)"
proof (induction exps arbitrary: best x)
  case Nil
  then show ?case by simp
next
  case (Cons e es)
  have e: "e \<in> labels" and es: "set es \<subseteq> labels" using Cons.prems by auto
  have x3: "rank x \<le> 3" using Cons.prems by (auto intro: labels_rank_le)
  let ?b = "if rank best \<le> rank e then e else best"
  have b: "?b \<in> labels" using e Cons.prems(1) by simp
  show ?case
  proof (cases "rank best = 3")
    case True
    then show ?thesis unfolding merge_loop_step[OF Cons.prems(1) e] using x3 by simp
  next
    case False
    have eq: "merge_loop best (e # es) = merge_loop ?b es"
      unfolding merge_loop_step[OF Cons.prems(1) e] using False by simp
    have bb: "rank ?b \<le> rank (merge_loop ?b es)" by (rule Cons.IH[OF b es]) simp
    have "rank x \<le> rank (merge_loop ?b es)"
    proof (cases "x \<in> set es")
      case True
      then show ?thesis by (intro Cons.IH[OF b es]) simp
    next
      case False
      then have "x = best \<or> x = e" using Cons.prems(3) by auto
      then have "rank x \<le> rank ?b" by auto
      then show ?thesis using bb by linarith
    qed
    then show ?thesis using eq by simp
  qed
qed

text \<open>
  C6. For a non-empty list of labels drawn from the four severity labels, the scanning
  loop of SortHashDir returns the member of the list that is greatest under
  EXPLOITABLE > PROBABLY EXPLOITABLE > UNKNOWN > PROBABLY NOT EXPLOITABLE, and every list
  with the same members, in whatever order, merges to the same label.
\<close>

theorem merge_severity_is_maximum:
  assumes ne: "exps \<noteq> []" and lab: "set exps \<subseteq> labels"
  shows "\<exists>m. merge_severity exps = Some m \<and> m \<in> set exps
           \<and> (\<forall>e \<in> set exps. rank e \<le> rank m)
           \<and> (\<forall>exps'. set exps' = set exps \<longrightarrow> merge_severity exps' = Some m)"
proof -
  have key: "\<And>xs. xs \<noteq> [] \<Longrightarrow> set xs \<subseteq> labels \<Longrightarrow>
      \<exists>m. merge_severity xs = Some m \<and> m \<in> set xs \<and> (\<forall>e \<in> set xs. rank e \<le> rank m)"
  proof -
    fix xs :: "string list"
    assume "xs \<noteq> []" and l: "set xs \<subseteq> labels"
    then obtain y ys where xs: "xs = y # ys" by (cases xs) auto
    have y: "y \<in> labels" using l xs by simp
    have m: "merge_severity xs = Some (merge_loop y xs)" by (simp add: merge_severity_def xs)
    have "merge_loop y xs \<in> insert y (set xs)" by (rule merge_loop_mem)
    then have mem: "merge_loop y xs \<in> set xs" using xs by auto
    have "\<forall>e \<in> set xs. rank e \<le> rank (merge_loop y xs)"
      using merge_loop_rank[OF y l] by blast
    with m mem show "\<exists>m. merge_severity xs = Some m \<and> m \<in> set xs \<and> (\<forall>e \<in> set xs. rank e \<le> rank m)"
      by blast
  qed
  from key[OF ne lab] obtain m where m: "merge_severity exps = Some m" "m \<in> set exps"
    "\<forall>e \<in> set exps. rank e \<le> rank m" by blast
  have "merge_severity exps' = Some m" if s: "set exps' = set exps" for exps'
  proof -
    have ne': "exps' \<noteq> []" using s ne by auto
    have lab': "set exps' \<subseteq> labels" using s lab by simp
    from key[OF ne' lab'] obtain m' where m': "merge_severity exps' = Some m'" "m' \<in> set exps'"
      "\<forall>e \<in> set exps'. rank e \<le> rank m'" by blast
    have "rank m = rank m'" using m m' s by (metis le_antisym)
    moreover have "m \<in> labels" "m' \<in> labels" using m m' s lab by auto
    ultimately have "m = m'" by (rule_tac rank_inj)
    then show ?thesis using m' by simp
  qed
  with m show ?thesis by blast
qed

text \<open>
  The lists [EXPLOITABLE, UNKNOWN] and [UNKNOWN, EXPLOITABLE] both merge to EXPLOITABLE.
\<close>

theorem merge_severity_is_maximum_witness:
  "[''EXPLOITABLE'', ''UNKNOWN''] \<noteq> [] \<and> set [''EXPLOITABLE'', ''UNKNOWN''] \<subseteq> labels
   \<and> merge_severity [''EXPLOITABLE'', ''UNKNOWN''] = Some ''EXPLOITABLE''
   \<and> merge_severity [''UNKNOWN'', ''EXPLOITABLE''] = Some ''EXPLOITABLE''"
proof -
  have ne: "[''EXPLOITABLE'', ''UNKNOWN''] \<noteq> []" by simp
  have lab: "set [''EXPLOITABLE'', ''UNKNOWN''] \<subseteq> labels" by (simp add: labels_def)
  from merge_severity_is_maximum[OF ne lab] obtain m where
    m: "merge_severity [''EXPLOITABLE'', ''UNKNOWN''] = Some m"
    and r: "\<forall>e \<in> set [''EXPLOITABLE'', ''UNKNOWN'']. rank e \<le> rank m"
    and mem: "m \<in> set [''EXPLOITABLE'', ''UNKNOWN'']"
    and perm: "\<forall>exps'. set exps' = set [''EXPLOITABLE'', ''UNKNOWN''] \<longrightarrow> merge_severity exps' = Some m"
    by blast
  have "m = ''EXPLOITABLE''" using r mem by (auto simp: rank_values)
  moreover have "set [''UNKNOWN'', ''EXPLOITABLE''] = set [''EXPLOITABLE'', ''UNKNOWN'']" by auto
  ultimately show ?thesis using ne lab m perm by blast
qed

section \<open>The target path of a group\<close>

text \<open>
  The files of a listing that the loop of SortHashDir parses: those it does not skip
  with \<open>continue\<close>.
\<close>

definition report_names :: "filesystem \<Rightarrow> string list \<Rightarrow> string list" where
  "report_names fs files = filter (\<lambda>file. endswith file ''.txt'' \<and> \<not> path_isdir fs file) files"

lemma scan_reports_result:
  "map (\<lambda>f. read_file fs (hashDir @ os_sep @ f)) (report_names fs files) = map Inr texts \<Longrightarrow>
   scan_reports md5 fs hashDir files rh ex
     = Inr (rh @ map (\<lambda>d. md5 (snd (parse_report d))) texts,
            ex @ map (\<lambda>d. fst (parse_report d)) texts)"
proof (induction files arbitrary: rh ex texts)
  case Nil
  then show ?case by (simp add: report_names_def)
next
  case (Cons name files)
  show ?case
  proof (cases "endswith name ''.txt'' \<and> \<not> path_isdir fs name")
    case False
    then have "report_names fs (name # files) = report_names fs files"
      by (auto simp: report_names_def)
    with Cons.prems have "map (\<lambda>f. read_file fs (hashDir @ os_sep @ f)) (report_names fs files)
        = map Inr texts" by simp
    from Cons.IH[OF this] False show ?thesis by auto
  next
    case True
    then have rn: "report_names fs (name # files) = name # report_names fs files"
      by (simp add: report_names_def)
    with Cons.prems obtain d ds where texts: "texts = d # ds"
      and d: "read_file fs (hashDir @ os_sep @ name) = Inr d"
      and ds: "map (\<lambda>f. read_file fs (hashDir @ os_sep @ f)) (report_names fs files) = map Inr ds"
      by (cases texts) auto
    from Cons.IH[OF ds] True d texts show ?thesis by simp
  qed
qed

lemma registers_loop_iff: "registers_loop r xs \<longleftrightarrow> (\<exists>x \<in> set xs. x \<noteq> r)"
  by (induction xs) auto

lemma registers_loop_pairwise:
  "registers_loop r (r # xs) \<longleftrightarrow> (\<exists>a \<in> set (r # xs). \<exists>b \<in> set (r # xs). a \<noteq> b)"
  unfolding registers_loop_iff by auto

text \<open>A group of two reports.\<close>

definition fs_group :: filesystem where
  "fs_group =
     [(''Crashes'', Dir), (''Crashes/abc'', Dir),
      (''Crashes/abc/a.bin-crash_details.txt'',
         File (sample_report ''UNKNOWN'' ''eax=1 esp=0012f000 ebp=0012f010 iopl=0'')),
      (''Crashes/abc/a.bin'', File ''input a''),
      (''Crashes/abc/b.bin-crash_details.txt'',
         File (sample_report ''PROBABLY NOT EXPLOITABLE''
                 ''eax=1 esp=0012f000 ebp=0012f010 iopl=0'')),
      (''Crashes/abc/b.bin'', File ''input b'')]"

text \<open>
  What SortHashDir computes from the files its loop parses. When the loop parses at
  least one file and every parsed file can be read (\<open>texts\<close> are their contents, in
  listing order), the result is \<open>outputDir/[RegistersChanged/]best/signature\<close>, where
  \<open>best\<close> is the merged severity of the parsed labels and the RegistersChanged segment
  is present exactly when some two of the parsed fingerprints differ.
\<close>

lemma SortHashDir_target_path:
  assumes ls: "os_listdir fs hashDir = Inr files"
    and texts: "map (\<lambda>f. read_file fs (hashDir @ os_sep @ f)) (report_names fs files)
                = map Inr texts"
    and ne: "texts \<noteq> []"
    and hd: "hashDir = parent @ os_sep @ signature" and sg: "sep_char \<notin> set signature"
  shows "\<exists>best. merge_severity (map (\<lambda>d. fst (parse_report d)) texts) = Some best
           \<and> SortHashDir md5 cfg fs hashDir
               = Inr (outputDir cfg @ os_sep
                      @ (if \<exists>a \<in> set (map (\<lambda>d. md5 (snd (parse_report d))) texts).
                            \<exists>b \<in> set (map (\<lambda>d. md5 (snd (parse_report d))) texts). a \<noteq> b
                         then ''RegistersChanged'' @ os_sep else [])
                      @ best @ os_sep @ signature)"
proof -
  let ?fps = "map (\<lambda>d. md5 (snd (parse_report d))) texts"
  let ?sev = "map (\<lambda>d. fst (parse_report d)) texts"
  obtain d ds where t: "texts = d # ds" using ne by (cases texts) auto
  have scan: "scan_reports md5 fs hashDir files [] [] = Inr (?fps, ?sev)"
    using scan_reports_result[OF texts, of md5 "[]" "[]"] by simp
  obtain r rs where fps: "?fps = r # rs" using t by simp
  obtain best where best: "merge_severity ?sev = Some best"
    using t by (simp add: merge_severity_def)
  have pw: "registers_loop r ?fps \<longleftrightarrow> (\<exists>a \<in> set ?fps. \<exists>b \<in> set ?fps. a \<noteq> b)"
    unfolding fps by (rule registers_loop_pairwise)
  have bn: "basename hashDir = signature" unfolding hd using sg by (rule basename_join)
  have "SortHashDir md5 cfg fs hashDir
        = Inr (outputDir cfg @ os_sep
               @ (if registers_loop r ?fps then ''RegistersChanged'' @ os_sep else [])
               @ best @ os_sep @ signature)"
    using fps best bn by (simp add: SortHashDir_def ls scan)
  then show ?thesis using best pw by simp
qed

text \<open>
  Labels [UNKNOWN, PROBABLY NOT EXPLOITABLE] with identical register lines: the group
  goes to \<open>Crashes/UNKNOWN/abc\<close>.
\<close>

lemma SortHashDir_target_path_example:
  "os_listdir fs_group ''Crashes/abc''
     = Inr [''a.bin-crash_details.txt'', ''a.bin'', ''b.bin-crash_details.txt'', ''b.bin'']
   \<and> report_names fs_group
         [''a.bin-crash_details.txt'', ''a.bin'', ''b.bin-crash_details.txt'', ''b.bin'']
       = [''a.bin-crash_details.txt'', ''b.bin-crash_details.txt'']
   \<and> SortHashDir (\<lambda>s. s) default_config fs_group ''Crashes/abc'' = Inr ''Crashes/UNKNOWN/abc''"
proof -
  let ?files = "[''a.bin-crash_details.txt'', ''a.bin'', ''b.bin-crash_details.txt'', ''b.bin'']"
  let ?r1 = "sample_report ''UNKNOWN'' ''eax=1 esp=0012f000 ebp=0012f010 iopl=0''"
  let ?r2 = "sample_report ''PROBABLY NOT EXPLOITABLE'' ''eax=1 esp=0012f000 ebp=0012f010 iopl=0''"
  have ls: "os_listdir fs_group ''Crashes/abc'' = Inr ?files" by code_simp
  have rn: "report_names fs_group ?files
            = [''a.bin-crash_details.txt'', ''b.bin-crash_details.txt'']" by code_simp
  have rd: "read_file fs_group (''Crashes/abc'' @ os_sep @ ''a.bin-crash_details.txt'') = Inr ?r1"
    "read_file fs_group (''Crashes/abc'' @ os_sep @ ''b.bin-crash_details.txt'') = Inr ?r2"
    by code_simp+
  have texts: "map (\<lambda>f. read_file fs_group (''Crashes/abc'' @ os_sep @ f))
                 (report_names fs_group ?files) = map Inr [?r1, ?r2]"
    unfolding rn using rd by simp
  have ne: "[?r1, ?r2] \<noteq> []" by simp
  have hd: "''Crashes/abc'' = ''Crashes'' @ os_sep @ ''abc''" by (simp add: os_sep_def sep_char_def)
  have sg: "sep_char \<notin> set ''abc''" by (simp add: sep_char_def)
  have p1: "parse_report ?r1
            = (''UNKNOWN'', ''eax=1 esp=0012f000 ebp=0012f010 iopl=0 esp=0012f000 ebp=0012f010'')"
    by code_simp
  have p2: "parse_report ?r2
            = (''PROBABLY NOT EXPLOITABLE'',
               ''eax=1 esp=0012f000 ebp=0012f010 iopl=0 esp=0012f000 ebp=0012f010'')"
    by code_simp
  have ms: "merge_severity [''UNKNOWN'', ''PROBABLY NOT EXPLOITABLE''] = Some ''UNKNOWN''"
    by code_simp
  have oc: "outputDir default_config @ os_sep @ ''UNKNOWN'' @ os_sep @ ''abc'' = ''Crashes/UNKNOWN/abc''"
    by (simp add: default_config_def os_sep_def sep_char_def)
  from SortHashDir_target_path[OF ls texts ne hd sg, of "\<lambda>s. s" default_config]
  obtain best where b: "merge_severity (map (\<lambda>d. fst (parse_report d)) [?r1, ?r2]) = Some best"
    and s: "SortHashDir (\<lambda>s. s) default_config fs_group ''Crashes/abc''
               = Inr (outputDir default_config @ os_sep
                      @ (if \<exists>a \<in> set (map (\<lambda>d. snd (parse_report d)) [?r1, ?r2]).
                            \<exists>b \<in> set (map (\<lambda>d. snd (parse_report d)) [?r1, ?r2]). a \<noteq> b
                         then ''RegistersChanged'' @ os_sep else [])
                      @ best @ os_sep @ ''abc'')" by blast
  from b have "best = ''UNKNOWN''" by (simp add: p1 p2 ms)
  with s have "SortHashDir (\<lambda>s. s) default_config fs_group ''Crashes/abc''
               = Inr (outputDir default_config @ os_sep @ ''UNKNOWN'' @ os_sep @ ''abc'')"
    by (simp add: p1 p2)
  then have "SortHashDir (\<lambda>s. s) default_config fs_group ''Crashes/abc'' = Inr ''Crashes/UNKNOWN/abc''"
    by (simp only: oc)
  with ls rn show ?thesis by blast
qed

text \<open>
  The same labels with a different \<open>ebp\<close> in the second report: the group goes to
  \<open>Crashes/RegistersChanged/UNKNOWN/abc\<close>. (In these examples the identity stands in
  for the digest; only equality of fingerprints matters.)
\<close>

definition fs_group_changed :: filesystem where
  "fs_group_changed =
     [(''Crashes'', Dir), (''Crashes/abc'', Dir),
      (''Crashes/abc/a.bin-crash_details.txt'',
         File (sample_report ''UNKNOWN'' ''eax=1 esp=0012f000 ebp=0012f010 iopl=0'')),
      (''Crashes/abc/b.bin-crash_details.txt'',
         File (sample_report ''PROBABLY NOT EXPLOITABLE''
                 ''eax=1 esp=0012f000 ebp=0012f0a0 iopl=0''))]"

lemma SortHashDir_registers_changed_example:
  "SortHashDir (\<lambda>s. s) default_config fs_group_changed ''Crashes/abc''
     = Inr ''Crashes/RegistersChanged/UNKNOWN/abc''"
  by code_simp

text \<open>
  A group with a single crash. The candidate input is itself named \<open>crash.txt\<close>, so
  the group holds its report \<open>crash.txt-crash_details.txt\<close> (rated UNKNOWN) and the
  candidate, whose content is \<open>AAAA\<close>.
\<close>

definition fs_one_report :: filesystem where
  "fs_one_report =
     [(''Crashes'', Dir), (''Crashes/abc'', Dir),
      (''Crashes/abc/crash.txt-crash_details.txt'',
         File (sample_report ''UNKNOWN'' ''eax=1 esp=0012f000 ebp=0012f010 iopl=0'')),
      (''Crashes/abc/crash.txt'', File ''AAAA'')]"

text \<open>
  C7. The loop of SortHashDir takes every file of the group whose name ends in
  \<open>.txt\<close> for a report. In \<open>fs_one_report\<close> the group holds one report, so no two
  fingerprints of its reports differ; yet the candidate \<open>crash.txt\<close> is parsed as
  well, its text yields the empty label and the fingerprint of the two-space string,
  the comparison with the first fingerprint fails and the group is sent to
  \<open>Crashes/RegistersChanged/UNKNOWN/abc\<close> instead of \<open>Crashes/UNKNOWN/abc\<close>.
\<close>

theorem SortHashDir_single_report_registers_changed:
  "os_listdir fs_one_report ''Crashes/abc'' = Inr [''crash.txt-crash_details.txt'', ''crash.txt'']
   \<and> parse_report (sample_report ''UNKNOWN'' ''eax=1 esp=0012f000 ebp=0012f010 iopl=0'')
       = (''UNKNOWN'', ''eax=1 esp=0012f000 ebp=0012f010 iopl=0 esp=0012f000 ebp=0012f010'')
   \<and> parse_report ''AAAA'' = ([], ''  '')
   \<and> scan_reports (\<lambda>s. s) fs_one_report ''Crashes/abc''
         [''crash.txt-crash_details.txt'', ''crash.txt''] [] []
       = Inr ([''eax=1 esp=0012f000 ebp=0012f010 iopl=0 esp=0012f000 ebp=0012f010'', ''  ''],
              [''UNKNOWN'', []])
   \<and> SortHashDir (\<lambda>s. s) default_config fs_one_report ''Crashes/abc''
       = Inr ''Crashes/RegistersChanged/UNKNOWN/abc''"
  by code_simp

text \<open>
  The driver produces such a group by itself: one candidate \<open>Crashes/crash.txt\<close> whose
  session writes a report is filed under RegistersChanged.
\<close>

definition fs_txt_candidate :: filesystem where
  "fs_txt_candidate =
     [(''Crashes'', Dir), (''Crashes/crash.txt'', File ''AAAA''), (''Tests'', Dir)]"

definition reporting_session :: session where
  "reporting_session =
     \<lparr>report_text = Some (sample_report ''UNKNOWN'' ''eax=1 esp=0012f000 ebp=0012f010 iopl=0''),
      exit_after = Some 2, raised = None\<rparr>"

lemma triage_file_txt_candidate:
  "triage_file default_config (\<lambda>s. s) 3 reporting_session fs_txt_candidate ''Crashes/crash.txt''
     = Some (Done
         [(''Crashes'', Dir), (''Tests'', Dir), (''Crashes/0x1a2b.0x3c4d'', Dir),
          (''Crashes/RegistersChanged'', Dir),
          (''Crashes/RegistersChanged/UNKNOWN'', Dir),
          (''Crashes/RegistersChanged/UNKNOWN/0x1a2b.0x3c4d'', Dir),
          (''Crashes/RegistersChanged/UNKNOWN/0x1a2b.0x3c4d/crash.txt-crash_details.txt'',
           File (sample_report ''UNKNOWN'' ''eax=1 esp=0012f000 ebp=0012f010 iopl=0'')),
          (''Crashes/RegistersChanged/UNKNOWN/0x1a2b.0x3c4d/crash.txt'', File ''AAAA'')])"
  by code_simp

text \<open>
  A directory of the group whose name ends in \<open>.txt\<close> passes the test of line 371 as
  well, since \<open>os.path.isdir\<close> looks for the bare name in the working directory; the
  \<open>open\<close> call then raises.
\<close>

definition fs_txt_directory :: filesystem where
  "fs_txt_directory =
     [(''Crashes'', Dir), (''Crashes/abc'', Dir),
      (''Crashes/abc/a.bin-crash_details.txt'',
         File (sample_report ''UNKNOWN'' ''eax=1 esp=0012f000 ebp=0012f010 iopl=0'')),
      (''Crashes/abc/sub.txt'', Dir)]"

lemma SortHashDir_txt_directory_raises:
  "SortHashDir (\<lambda>s. s) default_config fs_txt_directory ''Crashes/abc'' = Inl IOError"
  by code_simp
section \<open>Inputs that do not reproduce\<close>

text \<open>
  An output tree whose failure bucket already holds a file named like the candidate, and
  a session whose target exits on its own after three polls without a report.
\<close>

definition fs_bucket_taken :: filesystem where
  "fs_bucket_taken =
     [(''Crashes'', Dir), (''Crashes/a.bin'', File ''input''), (''Tests'', Dir),
      (''Crashes/UnableToReproduce'', Dir),
      (''Crashes/UnableToReproduce/a.bin'', File ''earlier input'')]"

definition quiet_session :: session where
  "quiet_session = \<lparr>report_text = None, exit_after = Some 3, raised = None\<rparr>"

text \<open>
  Where the bucket already holds the basename MoveFile does not overwrite: after a
  timeout the candidate \<open>Crashes/a.bin\<close> lands at
  \<open>Crashes/UnableToReproduce/a_(1).bin\<close>, and \<open>Crashes/UnableToReproduce/a.bin\<close>
  keeps the earlier input.
\<close>

lemma unreproduced_input_renamed_in_bucket:
  "GenerateCrashReport default_config hung_session fs_bucket_taken ''Crashes/a.bin''
     = Some (Returned None, fs_bucket_taken @ [(''Tests/a.bin'', File ''input'')])
   \<and> triage_file default_config (\<lambda>s. s) 2 hung_session fs_bucket_taken ''Crashes/a.bin''
     = Some (Done [(''Crashes'', Dir), (''Tests'', Dir), (''Crashes/UnableToReproduce'', Dir),
                   (''Crashes/UnableToReproduce/a.bin'', File ''earlier input''),
                   (''Tests/a.bin'', File ''input''),
                   (''Crashes/UnableToReproduce/a_(1).bin'', File ''input'')])"
  by code_simp

text \<open>
  The path on which the driver reaches the bucket. Let GenerateCrashReport return None,
  or a report file that can be read and whose text lacks \<open>Hash=\<close>; let the candidate be
  a regular file, the output root a directory, and the bucket
  \<open>outputDir/UnableToReproduce\<close> a directory or absent; and, where \<open>bucket/basename\<close> is
  taken, let the name the collision rename gives lie in an existing directory. Then the
  loop body creates the bucket if absent and moves the candidate with MoveFile, to
  \<open>bucket/basename\<close> when that name is free.
\<close>

lemma unreproduced_input_goes_to_bucket:
  assumes gen: "GenerateCrashReport cfg ses fs file = Some (Returned r, fs1)"
    and nr: "r = None \<or> (\<exists>report data. r = Some report \<and> read_file fs1 report = Inr data
                              \<and> \<not> contains data ''Hash='')"
    and cand: "map_of fs1 file = Some (File c)"
    and out: "path_isdir fs1 (outputDir cfg)"
    and bucket: "bucket = outputDir cfg @ os_sep @ ''UnableToReproduce''"
    and bk: "\<not> path_exists fs1 bucket \<or> path_isdir fs1 bucket"
    and fsb: "fsb = (if path_exists fs1 bucket then fs1 else fs1 @ [(bucket, Dir)])"
    and t: "t = bucket @ os_sep @ basename file"
    and par: "path_exists fs1 t \<longrightarrow> parent_ok fsb (resolve_destination fsb file t)"
  shows "triage_file cfg md5 (Suc n) ses fs file
           = Some (Done (write_file (delete_path fsb file) (resolve_destination fsb file t) c))
         \<and> path_isdir fsb bucket
         \<and> (\<not> path_exists fs1 t \<longrightarrow> resolve_destination fsb file t = t)"
proof -
  have ur: "sep_char \<notin> set ''UnableToReproduce''" by (simp add: sep_char_def)
  have parb: "parent_ok fs1 bucket" unfolding bucket using parent_ok_join[OF ur] out by simp
  have mk: "(if \<not> path_exists fs1 bucket then os_mkdir fs1 bucket else Inr fs1) = Inr fsb"
    using parb by (simp add: fsb os_mkdir_def)
  have lookb: "\<And>p. p \<noteq> bucket \<Longrightarrow> map_of fsb p = map_of fs1 p"
    by (auto simp: fsb map_add_def split: option.splits)
  have dirb: "path_isdir fsb bucket"
    using bk by (auto simp: fsb path_isdir_def path_exists_def map_add_def split: option.splits)
  have fb: "file \<noteq> bucket" using cand bk by (auto simp: path_isdir_def path_exists_def)
  have candb: "map_of fsb file = Some (File c)" using cand fb by (simp add: lookb)
  have tb: "t \<noteq> bucket" unfolding t by (rule join_neq_self)
  have free_case: "resolve_destination fsb file t = t" if "\<not> path_exists fs1 t"
  proof -
    have "\<not> path_exists fsb t" using that tb by (simp add: path_exists_def lookb)
    moreover from this have "\<not> path_isdir fsb t" by (simp add: path_exists_def path_isdir_def)
    ultimately show ?thesis by (simp add: resolve_destination_def)
  qed
  have part: "parent_ok fsb t"
    unfolding t using parent_ok_join[OF basename_no_sep] dirb by simp
  have parr: "parent_ok fsb (resolve_destination fsb file t)"
  proof (cases "path_exists fs1 t")
    case True
    with par show ?thesis by simp
  next
    case False
    with free_case part show ?thesis by simp
  qed
  have nd: "\<not> path_isdir fsb file" using candb by (simp add: path_isdir_def)
  have mv: "MoveFile (Suc n) fsb file t
            = Some (Inr (write_file (delete_path fsb file) (resolve_destination fsb file t) c))"
    using nd move_file_result[OF candb parr] by simp
  have "triage_file cfg md5 (Suc n) ses fs file = move_to_bucket cfg (Suc n) fs1 file"
    using gen nr by (auto simp: triage_file_def)
  moreover have "move_to_bucket cfg (Suc n) fs1 file
        = to_outcome (MoveFile (Suc n) fsb file (bucket @ os_sep @ basename file))"
    using mk unfolding move_to_bucket_def bucket by simp
  ultimately have "triage_file cfg md5 (Suc n) ses fs file
        = to_outcome (MoveFile (Suc n) fsb file (bucket @ os_sep @ basename file))"
    by simp
  then have "triage_file cfg md5 (Suc n) ses fs file
           = Some (Done (write_file (delete_path fsb file) (resolve_destination fsb file t) c))"
    using mv by (simp add: t to_outcome_def)
  with dirb free_case show ?thesis by blast
qed

text \<open>A candidate whose session times out without report goes to the new bucket.\<close>

lemma unreproduced_input_goes_to_bucket_example:
  "GenerateCrashReport default_config hung_session fs_candidate ''Crashes/a.bin''
     = Some (Returned None, fs_candidate @ [(''Tests/a.bin'', File ''input'')])
   \<and> \<not> path_exists (fs_candidate @ [(''Tests/a.bin'', File ''input'')]) ''Crashes/UnableToReproduce/a.bin''
   \<and> triage_file default_config (\<lambda>s. s) (Suc 0) hung_session fs_candidate ''Crashes/a.bin''
     = Some (Done [(''Crashes'', Dir), (''Tests'', Dir), (''Tests/a.bin'', File ''input''),
                   (''Crashes/UnableToReproduce'', Dir),
                   (''Crashes/UnableToReproduce/a.bin'', File ''input'')])"
proof -
  let ?fs1 = "fs_candidate @ [(''Tests/a.bin'', File ''input'')]"
  let ?bucket = "''Crashes/UnableToReproduce''"
  let ?fsb = "?fs1 @ [(?bucket, Dir)]"
  let ?t = "''Crashes/UnableToReproduce/a.bin''"
  have gen: "GenerateCrashReport default_config hung_session fs_candidate ''Crashes/a.bin''
     = Some (Returned None, ?fs1)" by code_simp
  have nr: "None = None \<or> (\<exists>report data. None = Some report \<and> read_file ?fs1 report = Inr data
                              \<and> \<not> contains data ''Hash='')" by simp
  have cand: "map_of ?fs1 ''Crashes/a.bin'' = Some (File ''input'')" by code_simp
  have out: "path_isdir ?fs1 (outputDir default_config)" by code_simp
  have bucket: "?bucket = outputDir default_config @ os_sep @ ''UnableToReproduce''" by code_simp
  have nb: "\<not> path_exists ?fs1 ?bucket" by code_simp
  then have bk: "\<not> path_exists ?fs1 ?bucket \<or> path_isdir ?fs1 ?bucket" by simp
  have fsb: "?fsb = (if path_exists ?fs1 ?bucket then ?fs1 else ?fs1 @ [(?bucket, Dir)])"
    using nb by simp
  have t: "?t = ?bucket @ os_sep @ basename ''Crashes/a.bin''" by code_simp
  have nt: "\<not> path_exists ?fs1 ?t" by code_simp
  then have par: "path_exists ?fs1 ?t \<longrightarrow> parent_ok ?fsb (resolve_destination ?fsb ''Crashes/a.bin'' ?t)"
    by simp
  have ev: "write_file (delete_path ?fsb ''Crashes/a.bin'')
              (resolve_destination ?fsb ''Crashes/a.bin'' ?t) ''input''
            = [(''Crashes'', Dir), (''Tests'', Dir), (''Tests/a.bin'', File ''input''),
               (''Crashes/UnableToReproduce'', Dir),
               (''Crashes/UnableToReproduce/a.bin'', File ''input'')]" by code_simp
  from unreproduced_input_goes_to_bucket[OF gen nr cand out bucket bk fsb t par, of "\<lambda>s. s" 0]
  have "triage_file default_config (\<lambda>s. s) (Suc 0) hung_session fs_candidate ''Crashes/a.bin''
        = Some (Done (write_file (delete_path ?fsb ''Crashes/a.bin'')
              (resolve_destination ?fsb ''Crashes/a.bin'' ?t) ''input''))" by blast
  then have "triage_file default_config (\<lambda>s. s) (Suc 0) hung_session fs_candidate ''Crashes/a.bin''
     = Some (Done [(''Crashes'', Dir), (''Tests'', Dir), (''Tests/a.bin'', File ''input''),
                   (''Crashes/UnableToReproduce'', Dir),
                   (''Crashes/UnableToReproduce/a.bin'', File ''input'')])"
    by (simp only: ev)
  with gen nt show ?thesis by blast
qed

text \<open>
  C8. A session whose target exits on its own before \<open>max_time\<close> and leaves no report:
  GenerateCrashReport tests only \<open>timeout == max_time\<close> before it returns the report
  name (line 273), so it returns \<open>crash_details.txt\<close> although no such file exists. The
  driver's \<open>open(report, "r")\<close> raises IOError, nothing catches it, and the run ends
  with the candidate still in \<open>Crashes\<close>: no bucket is created and the input is not
  moved. The same candidate is moved to \<open>Crashes/UnableToReproduce/a.bin\<close> when the
  session times out, and when the debugger call raises.
\<close>

theorem RunTriage_early_exit_without_report:
  "still_running (exit_after quiet_session) 3 = False
   \<and> report_text quiet_session = None
   \<and> GenerateCrashReport default_config quiet_session fs_candidate ''Crashes/a.bin''
       = Some (Returned (Some ''crash_details.txt''), fs_candidate)
   \<and> read_file fs_candidate ''crash_details.txt'' = Inl IOError
   \<and> triage_file default_config (\<lambda>s. s) 2 quiet_session fs_candidate ''Crashes/a.bin''
       = Some (Crash IOError)
   \<and> RunTriage default_config (\<lambda>s. s) 2 fs_candidate [(''Crashes/a.bin'', quiet_session)]
       = Some (Crash IOError)
   \<and> RunTriage default_config (\<lambda>s. s) 2 fs_candidate [(''Crashes/a.bin'', hung_session)]
       = Some (Done [(''Crashes'', Dir), (''Tests'', Dir), (''Tests/a.bin'', File ''input''),
                     (''Crashes/UnableToReproduce'', Dir),
                     (''Crashes/UnableToReproduce/a.bin'', File ''input'')])
   \<and> RunTriage default_config (\<lambda>s. s) 2 fs_candidate [(''Crashes/a.bin'', failed_session)]
       = Some (Done [(''Crashes'', Dir), (''Tests'', Dir),
                     (''Crashes/UnableToReproduce'', Dir),
                     (''Crashes/UnableToReproduce/a.bin'', File ''input'')])"
  by code_simp
section \<open>Collision rename of a name without extension\<close>

definition fs_dotdir :: filesystem where
  "fs_dotdir = [(''out.d'', Dir), (''out.d/crash'', File ''old''),
                (''in'', Dir), (''in/crash'', File ''new'')]"

definition fs_plain :: filesystem where
  "fs_plain = [(''out'', Dir), (''out/crash'', File ''old''),
               (''in'', Dir), (''in/crash'', File ''new'')]"

text \<open>
  C9, as stated, fails where a directory of the target path has a dot: \<open>rfind(".")\<close>
  runs over the whole path, finds that dot, and the counter goes into the directory name.
  The file \<open>in/crash\<close> moved into \<open>out.d\<close>, which holds a \<open>crash\<close>, is sent to
  \<open>out_(1).d/crash\<close> and not to \<open>out.d/cras_(1)h\<close>; no directory \<open>out_(1).d\<close> exists,
  every attempt of \<open>shutil.move\<close> raises, and the call does not return.
\<close>

theorem collision_rename_dot_in_directory:
  "path_exists fs_dotdir ''out.d/crash''
   \<and> CHR ''.'' \<notin> set (basename ''out.d/crash'')
   \<and> resolve_destination fs_dotdir ''in/crash'' ''out.d'' = ''out_(1).d/crash''
   \<and> resolve_destination fs_dotdir ''in/crash'' ''out.d'' \<noteq> ''out.d/cras_(1)h''
   \<and> MoveFile 1 fs_dotdir ''in/crash'' ''out.d'' = None"
  by code_simp

text \<open>
  C9, amended. For every MoveFile call on a regular file whose effective target \<open>t\<close>
  exists, where the whole target path (not only its last component) contains no dot, is
  not empty, does not end in a separator, and lies in an existing directory: the call
  returns; the file lands at \<open>t\<close> with \<open>_(n)\<close> inserted before the final character,
  \<open>n\<close> being the least counter from 1 whose name is free; that name held nothing
  before, the source is gone, and every other path keeps its entry.
\<close>

theorem collision_rename_without_dot:
  assumes src: "map_of fs source = Some (File c)"
    and t: "t = (if path_isdir fs destination then destination @ os_sep @ basename source
                 else destination)"
    and ex: "path_exists fs t"
    and nd: "CHR ''.'' \<notin> set t"
    and ne: "t \<noteq> []" and l: "last t \<noteq> sep_char"
    and par: "parent_ok fs t"
  shows "\<exists>n fs'. 1 \<le> n
           \<and> \<not> path_exists fs (butlast t @ ''_('' @ str_nat n @ '')'' @ [last t])
           \<and> (\<forall>k. 1 \<le> k \<and> k < n \<longrightarrow>
                 path_exists fs (butlast t @ ''_('' @ str_nat k @ '')'' @ [last t]))
           \<and> MoveFile (Suc fuel) fs source destination = Some (Inr fs')
           \<and> map_of fs' (butlast t @ ''_('' @ str_nat n @ '')'' @ [last t]) = Some (File c)
           \<and> map_of fs' source = None
           \<and> (\<forall>p. p \<noteq> source \<and> p \<noteq> butlast t @ ''_('' @ str_nat n @ '')'' @ [last t]
                 \<longrightarrow> map_of fs' p = map_of fs p)"
proof -
  let ?n = "find_dup fs t 1"
  let ?new = "butlast t @ ''_('' @ str_nat ?n @ '')'' @ [last t]"
  have dn: "\<And>k. dup_name t k = butlast t @ ''_('' @ str_nat k @ '')'' @ [last t]"
    using nd ne by (rule dup_name_nodot)
  have "resolve_destination fs source destination = dup_name t (find_dup fs t 1)"
    using ex unfolding t by (simp add: resolve_destination_def Let_def)
  then have res: "resolve_destination fs source destination = ?new"
    by (simp only: dn)
  have free: "\<not> path_exists fs ?new" using find_dup_free[of fs t 1] by (simp add: dn)
  have ge: "1 \<le> ?n" by (rule find_dup_ge)
  have least: "\<forall>k. 1 \<le> k \<and> k < ?n \<longrightarrow>
      path_exists fs (butlast t @ ''_('' @ str_nat k @ '')'' @ [last t])"
    using find_dup_least[of 1 _ fs t] by (simp add: dn)
  have "parent_ok fs (dup_name t ?n)" using par by (simp add: parent_ok_dup_nodot[OF nd ne l])
  then have par': "parent_ok fs (resolve_destination fs source destination)"
    using res by (simp add: dn)
  have nodir: "\<not> path_isdir fs source" using src by (simp add: path_isdir_def)
  let ?fs' = "write_file (delete_path fs source) ?new c"
  have mv: "MoveFile (Suc fuel) fs source destination = Some (Inr ?fs')"
    using nodir move_file_result[OF src par'] res by simp
  have neq: "?new \<noteq> source" using free src by (auto simp: path_exists_def)
  have a: "map_of ?fs' ?new = Some (File c)" by (simp add: map_of_write_file)
  have b: "map_of ?fs' source = None" using neq by (simp add: map_of_write_file map_of_delete_path)
  have c: "\<forall>p. p \<noteq> source \<and> p \<noteq> ?new \<longrightarrow> map_of ?fs' p = map_of fs p"
    by (simp add: map_of_write_file map_of_delete_path)
  from ge free least mv a b c show ?thesis by blast
qed

text \<open>A file named \<open>crash\<close> that collides in \<open>out\<close> lands at \<open>out/cras_(1)h\<close>.\<close>

theorem collision_rename_without_dot_witness:
  "map_of fs_plain ''in/crash'' = Some (File ''new'')
   \<and> path_isdir fs_plain ''out'' \<and> path_exists fs_plain ''out/crash''
   \<and> CHR ''.'' \<notin> set ''out/crash'' \<and> parent_ok fs_plain ''out/crash''
   \<and> (\<exists>n fs'. 1 \<le> n
         \<and> MoveFile (Suc 0) fs_plain ''in/crash'' ''out'' = Some (Inr fs')
         \<and> map_of fs' (''out/cras'' @ ''_('' @ str_nat n @ '')'' @ ''h'') = Some (File ''new'')
         \<and> map_of fs' ''in/crash'' = None)
   \<and> MoveFile (Suc 0) fs_plain ''in/crash'' ''out''
       = Some (Inr [(''out'', Dir), (''out/crash'', File ''old''), (''in'', Dir),
                    (''out/cras_(1)h'', File ''new'')])"
proof -
  have src: "map_of fs_plain ''in/crash'' = Some (File ''new'')" by code_simp
  have dir: "path_isdir fs_plain ''out''" by code_simp
  have t: "''out/crash'' = (if path_isdir fs_plain ''out''
             then ''out'' @ os_sep @ basename ''in/crash'' else ''out'')" by code_simp
  have ex: "path_exists fs_plain ''out/crash''" by code_simp
  have nd: "CHR ''.'' \<notin> set ''out/crash''" by simp
  have ne: "''out/crash'' \<noteq> []" by simp
  have l: "last ''out/crash'' \<noteq> sep_char" by (simp add: sep_char_def)
  have par: "parent_ok fs_plain ''out/crash''" by code_simp
  have ev: "MoveFile (Suc 0) fs_plain ''in/crash'' ''out''
       = Some (Inr [(''out'', Dir), (''out/crash'', File ''old''), (''in'', Dir),
                    (''out/cras_(1)h'', File ''new'')])" by code_simp
  from collision_rename_without_dot[OF src t ex nd ne l par, of 0]
  obtain n fs' where "1 \<le> n"
    and "MoveFile (Suc 0) fs_plain ''in/crash'' ''out'' = Some (Inr fs')"
    and "map_of fs' (butlast ''out/crash'' @ ''_('' @ str_nat n @ '')'' @ [last ''out/crash''])
         = Some (File ''new'')"
    and "map_of fs' ''in/crash'' = None" by blast
  then have "\<exists>n fs'. 1 \<le> n
         \<and> MoveFile (Suc 0) fs_plain ''in/crash'' ''out'' = Some (Inr fs')
         \<and> map_of fs' (''out/cras'' @ ''_('' @ str_nat n @ '')'' @ ''h'') = Some (File ''new'')
         \<and> map_of fs' ''in/crash'' = None" by auto
  with src dir ex nd par ev show ?thesis by blast
qed

section \<open>Which files of a group are parsed\<close>

text \<open>
  A group holding two reports, \<open>notes.txt\<close> rated EXPLOITABLE and
  \<open>b.bin-crash_details.txt\<close> rated UNKNOWN, while the working directory happens to
  hold a directory that is also named \<open>notes.txt\<close>.
\<close>

definition fs_shadow :: filesystem where
  "fs_shadow =
     [(''notes.txt'', Dir), (''Crashes'', Dir), (''Crashes/abc'', Dir),
      (''Crashes/abc/notes.txt'',
         File (sample_report ''EXPLOITABLE'' ''eax=1 esp=0012f000 ebp=0012f010 iopl=0'')),
      (''Crashes/abc/b.bin-crash_details.txt'',
         File (sample_report ''UNKNOWN'' ''eax=1 esp=0012f000 ebp=0012f010 iopl=0''))]"

text \<open>
  C10. The loop skips a file when its name does not end in \<open>.txt\<close> or when
  \<open>os.path.isdir(file)\<close> holds of the bare name, a test the operating system resolves
  in the working directory. Here the regular file \<open>Crashes/abc/notes.txt\<close> ends in
  \<open>.txt\<close> and is not parsed: the only label collected is UNKNOWN, and the group is
  classified UNKNOWN although it holds a report rated EXPLOITABLE.
\<close>

theorem SortHashDir_skips_txt_file:
  "os_listdir fs_shadow ''Crashes/abc'' = Inr [''notes.txt'', ''b.bin-crash_details.txt'']
   \<and> endswith ''notes.txt'' ''.txt''
   \<and> read_file fs_shadow ''Crashes/abc/notes.txt''
       = Inr (sample_report ''EXPLOITABLE'' ''eax=1 esp=0012f000 ebp=0012f010 iopl=0'')
   \<and> report_names fs_shadow [''notes.txt'', ''b.bin-crash_details.txt'']
       = [''b.bin-crash_details.txt'']
   \<and> scan_reports (\<lambda>s. s) fs_shadow ''Crashes/abc''
         [''notes.txt'', ''b.bin-crash_details.txt''] [] []
       = Inr ([''eax=1 esp=0012f000 ebp=0012f010 iopl=0 esp=0012f000 ebp=0012f010''],
              [''UNKNOWN''])
   \<and> SortHashDir (\<lambda>s. s) default_config fs_shadow ''Crashes/abc'' = Inr ''Crashes/UNKNOWN/abc''"
  by code_simp

end
